theory Spec2Isabelle
  imports
    Main
    "HOL-Library.Multiset"
    "HOL-Library.List_Lexorder"
    "HOL-Library.Product_Lexorder"
begin

section \<open>Python strings\<close>

text \<open>
  A Python \<^verbatim>\<open>str\<close> is a sequence of Unicode code points. It is modelled as a list of
  natural numbers, one per code point, so that the text a JSON escape decodes to is a
  value of the model. Python compares strings code point by code point, a proper prefix
  being smaller: this is the lexicographic order on lists, and it agrees with the
  byte-wise order of the UTF-8 encodings.
\<close>

type_synonym ustr = "nat list"

definition ascii :: "string \<Rightarrow> ustr" where
  "ascii s = map of_char s"

abbreviation TAB :: nat where "TAB \<equiv> 9"
abbreviation LF :: nat where "LF \<equiv> 10"
abbreviation CR :: nat where "CR \<equiv> 13"
abbreviation PIPE :: nat where "PIPE \<equiv> 124"

text \<open>\<^verbatim>\<open>line.rstrip("\r\n")\<close>: drops every trailing carriage return and line feed.\<close>

definition rstrip_crlf :: "ustr \<Rightarrow> ustr" where
  "rstrip_crlf s = rev (dropWhile (\<lambda>c. c = CR \<or> c = LF) (rev s))"

text \<open>
  The code points \<^verbatim>\<open>str.strip()\<close> removes (CPython's \<^verbatim>\<open>_PyUnicode_IsWhitespace\<close>).
\<close>

definition is_space :: "nat \<Rightarrow> bool" where
  "is_space c \<longleftrightarrow>
     (9 \<le> c \<and> c \<le> 13) \<or> (28 \<le> c \<and> c \<le> 32) \<or> c = 133 \<or> c = 160 \<or> c = 5760 \<or>
     (8192 \<le> c \<and> c \<le> 8202) \<or> c = 8232 \<or> c = 8233 \<or> c = 8239 \<or> c = 8287 \<or>
     c = 12288"

definition strip :: "ustr \<Rightarrow> ustr" where
  "strip s = dropWhile is_space (rev (dropWhile is_space (rev s)))"

text \<open>\<^verbatim>\<open>s.split(sep)\<close> for a one-character separator: every occurrence splits.\<close>

fun split_on :: "nat \<Rightarrow> ustr \<Rightarrow> ustr list" where
  "split_on sep [] = [[]]"
| "split_on sep (c # cs) =
     (if c = sep then [] # split_on sep cs
      else (case split_on sep cs of
              [] \<Rightarrow> [[c]]
            | p # ps \<Rightarrow> (c # p) # ps))"

text \<open>\<^verbatim>\<open>s.split(sep, 1)\<close>: only the first occurrence splits, so one or two parts.\<close>

definition split_first :: "nat \<Rightarrow> ustr \<Rightarrow> ustr list" where
  "split_first sep s =
     (case dropWhile (\<lambda>c. c \<noteq> sep) s of
        [] \<Rightarrow> [s]
      | _ # rest \<Rightarrow> [takeWhile (\<lambda>c. c \<noteq> sep) s, rest])"

section \<open>Decoded values and the interpreter\<close>

text \<open>
  The values \<^verbatim>\<open>json.loads\<close> returns. A float keeps the text that was handed to
  \<^verbatim>\<open>float\<close> (the number as written, or one of \<^verbatim>\<open>NaN\<close>, \<^verbatim>\<open>Infinity\<close>,
  \<^verbatim>\<open>-Infinity\<close>); an object keeps its members as written, in order.
\<close>

datatype json =
    JNull
  | JBool bool
  | JInt int
  | JFloat ustr
  | JString ustr
  | JArray "json list"
  | JObject "(ustr \<times> json) list"

text \<open>The exceptions that the two programs can meet.\<close>

datatype exn = JSONDecodeError | TypeError | RecursionError | ValueError | UnicodeEncodeError

text \<open>
  What the programs take from the interpreter and its settings, as parameters of the
  model:
  \<^item> \<open>float_nonzero\<close>: whether a float differs from zero, given the text it was read from;
  \<^item> \<open>str_other\<close>: what \<^verbatim>\<open>str\<close> gives for a float, a list or a dict (floating-point
    printing and \<^verbatim>\<open>repr\<close> of the nested values), or the exception it raises;
  \<^item> \<open>max_nesting\<close>: how many arrays and objects, one inside the other, the JSON scanner
    can enter before the recursion limit stops it;
  \<^item> \<open>max_str_digits\<close>: the limit on the digits of an integer read from or written to
    text (\<^verbatim>\<open>sys.get_int_max_str_digits()\<close>, 0 for none);
  \<^item> \<open>unicode_decimal\<close>: the value of a decimal digit outside ASCII, from the Unicode
    tables of the interpreter;
  \<^item> \<open>stdout_encodable\<close>: whether the encoding of standard output has the code point.
\<close>

record pyrt =
  float_nonzero :: "ustr \<Rightarrow> bool"
  str_other :: "json \<Rightarrow> exn + ustr"
  max_nesting :: nat
  max_str_digits :: nat
  unicode_decimal :: "nat \<Rightarrow> nat option"
  stdout_encodable :: "nat \<Rightarrow> bool"

subsection \<open>Integers and text\<close>

definition is_digit :: "nat \<Rightarrow> bool" where
  "is_digit c \<longleftrightarrow> 48 \<le> c \<and> c \<le> 57"

text \<open>
  The limit on the digits of an integer in a conversion from or to text: it applies to
  more than 640 digits, when a limit is set and the digits are more than the limit.
\<close>

definition too_many_digits :: "pyrt \<Rightarrow> nat \<Rightarrow> bool" where
  "too_many_digits rt n \<longleftrightarrow> 640 < n \<and> 0 < max_str_digits rt \<and> max_str_digits rt < n"

text \<open>
  The value of a code point as a decimal digit in \<^verbatim>\<open>int(s)\<close>: below 127 only the ASCII
  digits count; above, whitespace is not a digit, and the rest is looked up.
\<close>

definition digit_of :: "pyrt \<Rightarrow> nat \<Rightarrow> nat option" where
  "digit_of rt c =
     (if c < 127 then (if is_digit c then Some (c - 48) else None)
      else if is_space c then None
      else unicode_decimal rt c)"

text \<open>
  The digits of \<^verbatim>\<open>int(s)\<close>: at least one digit, and single underscores only between
  two digits. The flag says that the code point before was a digit.
\<close>

fun int_digits :: "pyrt \<Rightarrow> nat \<Rightarrow> bool \<Rightarrow> ustr \<Rightarrow> nat option" where
  "int_digits rt acc after_digit [] = (if after_digit then Some acc else None)"
| "int_digits rt acc after_digit (c # cs) =
     (case digit_of rt c of
        Some v \<Rightarrow> int_digits rt (10 * acc + v) True cs
      | None \<Rightarrow>
          if c = 95 \<and> after_digit then int_digits rt acc False cs
          else None)"

text \<open>
  \<^verbatim>\<open>int(s)\<close> in base 10: surrounding whitespace is ignored (the code points of
  \<^verbatim>\<open>strip\<close> except the four separators 28 to 31), one sign is allowed, leading zeros
  are allowed and count as digits for the limit, underscores do not. \<open>None\<close> is
  \<^verbatim>\<open>ValueError\<close>, for a text that is not an integer and for one over the limit alike.
\<close>

definition int_space :: "nat \<Rightarrow> bool" where
  "int_space c \<longleftrightarrow> is_space c \<and> (c < 28 \<or> 31 < c)"

definition py_int :: "pyrt \<Rightarrow> ustr \<Rightarrow> int option" where
  "py_int rt s =
     (case dropWhile int_space (rev (dropWhile int_space (rev s))) of
        [] \<Rightarrow> None
      | c # cs \<Rightarrow>
          (let body = (if c = 45 \<or> c = 43 then cs else c # cs)
           in case int_digits rt 0 False body of
                None \<Rightarrow> None
              | Some n \<Rightarrow>
                  if too_many_digits rt (length (filter (\<lambda>d. d \<noteq> 95) body)) then None
                  else Some (if c = 45 then - int n else int n)))"

text \<open>
  \<^verbatim>\<open>str(n)\<close> for an integer: its decimal digits, with a minus sign when negative;
  \<^verbatim>\<open>ValueError\<close> when the digits are over the limit.
\<close>

fun digits_of :: "nat \<Rightarrow> ustr" where
  "digits_of n = (if n < 10 then [48 + n] else digits_of (n div 10) @ [48 + n mod 10])"

declare digits_of.simps [simp del]

definition str_int :: "pyrt \<Rightarrow> int \<Rightarrow> exn + ustr" where
  "str_int rt i =
     (if too_many_digits rt (length (digits_of (nat \<bar>i\<bar>))) then Inl ValueError
      else Inr (if i < 0 then 45 # digits_of (nat (- i)) else digits_of (nat i)))"

section \<open>Decoding JSON\<close>

text \<open>
  The outcome of a scanning function: the value and the rest of the text, or an
  exception, or the bound on the number of calls of the model was reached.
\<close>

datatype 'a scan = Done 'a ustr | Raised exn | Starved

abbreviation Bad :: "'a scan" where "Bad \<equiv> Raised JSONDecodeError"

definition json_ws :: "nat \<Rightarrow> bool" where
  "json_ws c \<longleftrightarrow> c = 32 \<or> c = 9 \<or> c = 10 \<or> c = 13"

definition skip_ws :: "ustr \<Rightarrow> ustr" where
  "skip_ws s = dropWhile json_ws s"

definition hex_val :: "nat \<Rightarrow> nat option" where
  "hex_val c =
     (if 48 \<le> c \<and> c \<le> 57 then Some (c - 48)
      else if 97 \<le> c \<and> c \<le> 102 then Some (c - 87)
      else if 65 \<le> c \<and> c \<le> 70 then Some (c - 55)
      else None)"

text \<open>The four hexadecimal digits of a \<^verbatim>\<open>\uXXXX\<close> escape, at the start of the text.\<close>

definition decode_uXXXX :: "ustr \<Rightarrow> nat option" where
  "decode_uXXXX s =
     (case s of
        a # b # c # d # _ \<Rightarrow>
          (case (hex_val a, hex_val b, hex_val c, hex_val d) of
             (Some x, Some y, Some z, Some w) \<Rightarrow> Some (((x * 16 + y) * 16 + z) * 16 + w)
           | _ \<Rightarrow> None)
      | _ \<Rightarrow> None)"

definition backslash :: "nat \<Rightarrow> nat option" where
  "backslash e =
     (if e = 34 \<or> e = 92 \<or> e = 47 then Some e
      else if e = 98 then Some 8
      else if e = 102 then Some 12
      else if e = 110 then Some 10
      else if e = 114 then Some 13
      else if e = 116 then Some 9
      else None)"

text \<open>
  \<^verbatim>\<open>scanstring\<close> in strict mode, from just after the opening quote: the decoded string and
  the text after the closing quote. A code point below 32 is refused; a high surrogate
  followed by a low surrogate, both as \<^verbatim>\<open>\u\<close> escapes, is one code point.
\<close>

function scanstring :: "ustr \<Rightarrow> ustr \<Rightarrow> (ustr \<times> ustr) option" where
  "scanstring acc [] = None"
| "scanstring acc (c # cs) =
     (if c = 34 then Some (acc, cs)
      else if c = 92 then
        (case cs of
           [] \<Rightarrow> None
         | e # r \<Rightarrow>
             if e \<noteq> 117 then
               (case backslash e of
                  None \<Rightarrow> None
                | Some ch \<Rightarrow> scanstring (acc @ [ch]) r)
             else
               (case decode_uXXXX r of
                  None \<Rightarrow> None
                | Some uni \<Rightarrow>
                    if 55296 \<le> uni \<and> uni \<le> 56319 \<and> take 2 (drop 4 r) = [92, 117] then
                      (case decode_uXXXX (drop 6 r) of
                         None \<Rightarrow> None
                       | Some uni2 \<Rightarrow>
                           if 56320 \<le> uni2 \<and> uni2 \<le> 57343 then
                             scanstring
                               (acc @ [65536 + ((uni - 55296) * 1024 + (uni2 - 56320))])
                               (drop 10 r)
                           else scanstring (acc @ [uni]) (drop 4 r))
                    else scanstring (acc @ [uni]) (drop 4 r)))
      else if c < 32 then None
      else scanstring (acc @ [c]) cs)"
  by pat_completeness auto
termination
  by (relation "measure (\<lambda>(acc, s). length s)") auto

definition digits_val :: "ustr \<Rightarrow> nat" where
  "digits_val ds = foldl (\<lambda>acc d. 10 * acc + (d - 48)) 0 ds"

text \<open>The exponent part of a number, \<^verbatim>\<open>[eE][-+]?[0-9]+\<close>, when there is one.\<close>

definition match_exp :: "ustr \<Rightarrow> ustr \<times> ustr" where
  "match_exp s =
     (case s of
        [] \<Rightarrow> ([], s)
      | e # rest \<Rightarrow>
          if e = 101 \<or> e = 69 then
            (let sg = (case rest of
                         [] \<Rightarrow> []
                       | c # _ \<Rightarrow> if c = 43 \<or> c = 45 then [c] else []);
                 r = drop (length sg) rest
             in if r \<noteq> [] \<and> is_digit (hd r)
                then (e # sg @ takeWhile is_digit r, dropWhile is_digit r)
                else ([], s))
          else ([], s))"

text \<open>The fraction part of a number, \<^verbatim>\<open>\.[0-9]+\<close>, when there is one.\<close>

definition match_frac :: "ustr \<Rightarrow> ustr \<times> ustr" where
  "match_frac s =
     (case s of
        p # q # qs \<Rightarrow>
          if p = 46 \<and> is_digit q
          then (p # takeWhile is_digit (q # qs), dropWhile is_digit (q # qs))
          else ([], s)
      | _ \<Rightarrow> ([], s))"

text \<open>
  The scanner's number pattern \<^verbatim>\<open>(-?(?:0|[1-9][0-9]*))(\.[0-9]+)?([eE][-+]?[0-9]+)?\<close>:
  an integer (its sign and its digits) when neither fraction nor exponent matched, a
  float (its text) otherwise.
\<close>

datatype numlit = IntLit bool ustr | FloatLit ustr

definition match_number :: "ustr \<Rightarrow> (numlit \<times> ustr) option" where
  "match_number s =
     (let neg = (s \<noteq> [] \<and> hd s = 45);
          r0 = (if neg then tl s else s)
      in case r0 of
           [] \<Rightarrow> None
         | d # ds \<Rightarrow>
             if \<not> is_digit d then None
             else
               (let ipart = (if d = 48 then [d] else d # takeWhile is_digit ds);
                    r1 = (if d = 48 then ds else dropWhile is_digit ds);
                    (frac, r2) = match_frac r1;
                    (ex, r3) = match_exp r2
                in if frac = [] \<and> ex = []
                   then Some (IntLit neg ipart, r3)
                   else Some (FloatLit ((if neg then [45] else []) @ ipart @ frac @ ex), r3)))"

text \<open>
  The value of a number: \<^verbatim>\<open>int\<close> of the digits, which raises \<^verbatim>\<open>ValueError\<close> (not a
  \<^verbatim>\<open>JSONDecodeError\<close>) over the limit on digits, or \<^verbatim>\<open>float\<close> of the text.
\<close>

definition number_value :: "pyrt \<Rightarrow> numlit \<Rightarrow> exn + json" where
  "number_value rt lit =
     (case lit of
        IntLit neg ds \<Rightarrow>
          if too_many_digits rt (length ds) then Inl ValueError
          else Inr (JInt (if neg then - int (digits_val ds) else int (digits_val ds)))
      | FloatLit t \<Rightarrow> Inr (JFloat t))"

text \<open>\<^verbatim>\<open>string[idx:idx + len(w)] == w\<close>\<close>

definition starts_with :: "ustr \<Rightarrow> string \<Rightarrow> bool" where
  "starts_with s w \<longleftrightarrow> take (length w) s = ascii w"

text \<open>
  The values that are neither strings nor arrays nor objects, in the order in which the
  scanner tries them.
\<close>

definition scan_literal :: "pyrt \<Rightarrow> ustr \<Rightarrow> json scan" where
  "scan_literal rt s =
     (if starts_with s ''null'' then Done JNull (drop 4 s)
      else if starts_with s ''true'' then Done (JBool True) (drop 4 s)
      else if starts_with s ''false'' then Done (JBool False) (drop 5 s)
      else
        (case match_number s of
           Some (lit, r) \<Rightarrow>
             (case number_value rt lit of
                Inl e \<Rightarrow> Raised e
              | Inr v \<Rightarrow> Done v r)
         | None \<Rightarrow>
             if starts_with s ''NaN'' then Done (JFloat (ascii ''NaN'')) (drop 3 s)
             else if starts_with s ''Infinity''
               then Done (JFloat (ascii ''Infinity'')) (drop 8 s)
             else if starts_with s ''-Infinity''
               then Done (JFloat (ascii ''-Infinity'')) (drop 9 s)
             else Bad))"

text \<open>
  The scanner. \<open>scan_once\<close> reads one value at the start of the text; \<open>json_object\<close>
  continues an object from just after the opening quote of a member's name, and
  \<open>json_array\<close> continues an array at its next element, each with the members read so
  far. The argument \<open>d\<close> is the number of arrays and objects that may still be entered,
  one inside the other: at an opening bracket or brace with \<open>d = 0\<close> the scanner raises
  \<^verbatim>\<open>RecursionError\<close>, before it looks at what follows. The first argument bounds the
  number of calls of the model, and \<open>Starved\<close> says that this bound was reached.
\<close>

function scan_once :: "nat \<Rightarrow> pyrt \<Rightarrow> nat \<Rightarrow> ustr \<Rightarrow> json scan"
  and json_object :: "nat \<Rightarrow> pyrt \<Rightarrow> nat \<Rightarrow> (ustr \<times> json) list \<Rightarrow> ustr \<Rightarrow> json scan"
  and json_array :: "nat \<Rightarrow> pyrt \<Rightarrow> nat \<Rightarrow> json list \<Rightarrow> ustr \<Rightarrow> json scan"
where
  "scan_once 0 rt d s = Starved"
| "scan_once (Suc n) rt d s =
     (case s of
        [] \<Rightarrow> Bad
      | c # cs \<Rightarrow>
          if c = 34 then
            (case scanstring [] cs of
               None \<Rightarrow> Bad
             | Some (str, r) \<Rightarrow> Done (JString str) r)
          else if c = 123 then
            (if d = 0 then Raised RecursionError
             else
               (case skip_ws cs of
                  [] \<Rightarrow> Bad
                | x # xs \<Rightarrow>
                    if x = 125 then Done (JObject []) xs
                    else if x = 34 then json_object n rt (d - 1) [] xs
                    else Bad))
          else if c = 91 then
            (if d = 0 then Raised RecursionError
             else
               (case skip_ws cs of
                  [] \<Rightarrow> Bad
                | x # xs \<Rightarrow>
                    if x = 93 then Done (JArray []) xs
                    else json_array n rt (d - 1) [] (x # xs)))
          else scan_literal rt s)"
| "json_object 0 rt d pairs s = Starved"
| "json_object (Suc n) rt d pairs s =
     (case scanstring [] s of
        None \<Rightarrow> Bad
      | Some (key, r) \<Rightarrow>
          (case skip_ws r of
             [] \<Rightarrow> Bad
           | c # r1 \<Rightarrow>
               if c \<noteq> 58 then Bad
               else
                 (case scan_once n rt d (skip_ws r1) of
                    Raised e \<Rightarrow> Raised e
                  | Starved \<Rightarrow> Starved
                  | Done v r2 \<Rightarrow>
                      (case skip_ws r2 of
                         [] \<Rightarrow> Bad
                       | x # r3 \<Rightarrow>
                           if x = 125 then Done (JObject (pairs @ [(key, v)])) r3
                           else if x \<noteq> 44 then Bad
                           else
                             (case skip_ws r3 of
                                [] \<Rightarrow> Bad
                              | q # r4 \<Rightarrow>
                                  if q \<noteq> 34 then Bad
                                  else json_object n rt d (pairs @ [(key, v)]) r4)))))"
| "json_array 0 rt d vals s = Starved"
| "json_array (Suc n) rt d vals s =
     (case scan_once n rt d s of
        Raised e \<Rightarrow> Raised e
      | Starved \<Rightarrow> Starved
      | Done v r \<Rightarrow>
          (case skip_ws r of
             [] \<Rightarrow> Bad
           | x # r1 \<Rightarrow>
               if x = 93 then Done (JArray (vals @ [v])) r1
               else if x \<noteq> 44 then Bad
               else json_array n rt d (vals @ [v]) (skip_ws r1)))"
  by pat_completeness auto
termination
  by (relation "measure (\<lambda>x. case x of
                           Inl (n, _) \<Rightarrow> n
                         | Inr (Inl (n, _)) \<Rightarrow> n
                         | Inr (Inr (n, _)) \<Rightarrow> n)") auto

text \<open>
  \<^verbatim>\<open>json.loads(s)\<close> for a string: one value between optional whitespace and nothing
  after it; a leading byte order mark is refused. The result is the value or the
  exception raised: \<^verbatim>\<open>JSONDecodeError\<close> for a text that is not JSON,
  \<^verbatim>\<open>RecursionError\<close> for nesting beyond \<open>max_nesting\<close>, \<^verbatim>\<open>ValueError\<close> for an integer
  over the limit on digits, whichever the scanner meets first. The bound on the calls
  of the model is never reached (lemma \<open>json_loads_not_starved\<close> below).
\<close>

definition json_scan :: "pyrt \<Rightarrow> ustr \<Rightarrow> json scan" where
  "json_scan rt s = scan_once (Suc (length s + length s)) rt (max_nesting rt) (skip_ws s)"

definition json_loads :: "pyrt \<Rightarrow> ustr \<Rightarrow> exn + json" where
  "json_loads rt s =
     (if take 1 s = [65279] then Inl JSONDecodeError
      else (case json_scan rt s of
              Done obj r \<Rightarrow> if skip_ws r = [] then Inr obj else Inl JSONDecodeError
            | Raised e \<Rightarrow> Inl e
            | Starved \<Rightarrow> Inl JSONDecodeError))"

section \<open>The mapper\<close>

text \<open>
  An object is decoded to \<^verbatim>\<open>dict(pairs)\<close>: of a repeated name the last value counts.
  The model builds this dictionary where the object is read.
\<close>

definition dict_of :: "(ustr \<times> json) list \<Rightarrow> (ustr \<rightharpoonup> json)" where
  "dict_of pairs = map_of (rev pairs)"

text \<open>\<^verbatim>\<open>obj.get("action")\<close>: \<^verbatim>\<open>None\<close> when the name is absent.\<close>

definition dict_get :: "(ustr \<rightharpoonup> json) \<Rightarrow> ustr \<Rightarrow> json" where
  "dict_get d k = (case d k of None \<Rightarrow> JNull | Some v \<Rightarrow> v)"

text \<open>The truth value of \<^verbatim>\<open>if action:\<close>.\<close>

definition py_bool :: "pyrt \<Rightarrow> json \<Rightarrow> bool" where
  "py_bool rt v =
     (case v of
        JNull \<Rightarrow> False
      | JBool b \<Rightarrow> b
      | JInt i \<Rightarrow> i \<noteq> 0
      | JFloat t \<Rightarrow> float_nonzero rt t
      | JString s \<Rightarrow> s \<noteq> []
      | JArray xs \<Rightarrow> xs \<noteq> []
      | JObject ps \<Rightarrow> ps \<noteq> [])"

text \<open>\<^verbatim>\<open>str(action)\<close>\<close>

definition py_str :: "pyrt \<Rightarrow> json \<Rightarrow> exn + ustr" where
  "py_str rt v =
     (case v of
        JNull \<Rightarrow> Inr (ascii ''None'')
      | JBool b \<Rightarrow> Inr (if b then ascii ''True'' else ascii ''False'')
      | JInt i \<Rightarrow> str_int rt i
      | JString s \<Rightarrow> Inr s
      | _ \<Rightarrow> str_other rt v)"

abbreviation ACTION_INDEX :: nat where "ACTION_INDEX \<equiv> 3"

text \<open>
  The body of the \<^verbatim>\<open>try\<close> statement of \<^verbatim>\<open>parse_line\<close>: it returns a key
  (\<open>Inr (Some key)\<close>), or runs to its end without one (\<open>Inr None\<close>), or raises.
\<close>

definition try_json :: "pyrt \<Rightarrow> ustr \<Rightarrow> exn + ustr option" where
  "try_json rt line =
     (case json_loads rt line of
        Inl e \<Rightarrow> Inl e
      | Inr obj \<Rightarrow>
          (case obj of
             JObject pairs \<Rightarrow>
               (let action = dict_get (dict_of pairs) (ascii ''action'')
                in if py_bool rt action
                   then (case py_str rt action of
                           Inl e \<Rightarrow> Inl e
                         | Inr t \<Rightarrow> Inr (Some (strip t)))
                   else Inr None)
           | _ \<Rightarrow> Inr None))"

text \<open>
  The \<^verbatim>\<open>try\<close> statement with its handler
  \<^verbatim>\<open>except (json.JSONDecodeError, TypeError): pass\<close>: these two exceptions pass control
  on to the pipe-separated format, as \<open>Inr None\<close> does; every other exception leaves
  \<^verbatim>\<open>parse_line\<close>.
\<close>

definition json_action :: "pyrt \<Rightarrow> ustr \<Rightarrow> exn + ustr option" where
  "json_action rt line =
     (case try_json rt line of
        Inl e \<Rightarrow> if e = JSONDecodeError \<or> e = TypeError then Inr None else Inl e
      | Inr r \<Rightarrow> Inr r)"

text \<open>The fallback of \<^verbatim>\<open>parse_line\<close>: the pipe-separated format.\<close>

definition pipe_action :: "ustr \<Rightarrow> ustr option" where
  "pipe_action line =
     (let parts = map strip (split_on PIPE line)
      in if length parts \<le> ACTION_INDEX then None
         else (let action = strip (parts ! ACTION_INDEX)
               in if action \<noteq> [] then Some action else None))"

text \<open>
  \<^verbatim>\<open>parse_line(line)\<close>: the action (\<open>Inr (Some action)\<close>), or \<^verbatim>\<open>None\<close> (\<open>Inr None\<close>),
  or the exception that leaves it.
\<close>

definition parse_line :: "pyrt \<Rightarrow> ustr \<Rightarrow> exn + ustr option" where
  "parse_line rt raw =
     (let line = rstrip_crlf raw in
      if line = [] then Inr None
      else (case json_action rt line of
              Inl e \<Rightarrow> Inl e
            | Inr (Some action) \<Rightarrow> Inr (Some action)
            | Inr None \<Rightarrow> Inr (pipe_action line)))"

text \<open>
  The mapper's two streams. Standard output holds the texts written, one per
  \<^verbatim>\<open>print(action, "1", sep="\t")\<close>. The diagnostic channel holds its messages: for
  \<^verbatim>\<open>mapper: skip malformed line\<close> the preview \<^verbatim>\<open>line[:80]\<close> of the line as read, for
  \<^verbatim>\<open>mapper error\<close> the exception.
\<close>

datatype mdiag = MapperSkip ustr | MapperError exn

record mstate =
  mout :: "ustr list"
  merr :: "mdiag list"

definition minit :: mstate where
  "minit = \<lparr>mout = [], merr = []\<rparr>"

definition emit :: "ustr \<Rightarrow> ustr" where
  "emit action = action @ TAB # ascii ''1'' @ [LF]"

text \<open>
  One iteration of the loop of \<^verbatim>\<open>main\<close>. The handler \<^verbatim>\<open>except Exception\<close> takes the
  exception that leaves \<^verbatim>\<open>parse_line\<close>, and the \<^verbatim>\<open>UnicodeEncodeError\<close> that
  \<^verbatim>\<open>print\<close> raises, before it has written anything, for an action with a code point
  that standard output cannot encode.
\<close>

definition mapper_step :: "pyrt \<Rightarrow> mstate \<Rightarrow> ustr \<Rightarrow> mstate" where
  "mapper_step rt st raw =
     (case parse_line rt raw of
        Inl e \<Rightarrow> st\<lparr>merr := merr st @ [MapperError e]\<rparr>
      | Inr None \<Rightarrow> st\<lparr>merr := merr st @ [MapperSkip (take 80 raw)]\<rparr>
      | Inr (Some action) \<Rightarrow>
          if list_all (stdout_encodable rt) action
          then st\<lparr>mout := mout st @ [emit action]\<rparr>
          else st\<lparr>merr := merr st @ [MapperError UnicodeEncodeError]\<rparr>)"

text \<open>\<^verbatim>\<open>main\<close> of the mapper: the loop over the lines of \<^verbatim>\<open>sys.stdin\<close>.\<close>

definition mapper_main :: "pyrt \<Rightarrow> ustr list \<Rightarrow> mstate" where
  "mapper_main rt lines = foldl (mapper_step rt) minit lines"

text \<open>
  A value for the parameters, to state closed examples with: the settings of CPython
  3.11 (Unicode 14.0; at most 4300 digits; 993 levels of nesting, which is what is left
  of the recursion limit of 1000 where the mapper calls \<^verbatim>\<open>json.loads\<close>; standard output
  in UTF-8, which has every code point but the surrogates). The two parameters about
  floats, lists and dicts are placeholders: no example below has such an \<^verbatim>\<open>action\<close>.
\<close>

definition decimal_zeros :: "nat list" where
  "decimal_zeros =
     [1632, 1776, 1984, 2406, 2534, 2662, 2790, 2918, 3046, 3174, 3302, 3430, 3558, 3664,
      3792, 3872, 4160, 4240, 6112, 6160, 6470, 6608, 6784, 6800, 6992, 7088, 7232, 7248,
      42528, 43216, 43264, 43472, 43504, 43600, 44016, 65296, 66720, 68912, 69734, 69872,
      69942, 70096, 70384, 70736, 70864, 71248, 71360, 71472, 71904, 72016, 72784, 73040,
      73120, 92768, 92864, 93008, 120782, 120792, 120802, 120812, 120822, 123200, 123632,
      125264, 130032]"

definition rt0 :: pyrt where
  "rt0 =
     \<lparr>float_nonzero = (\<lambda>t. True),
      str_other = (\<lambda>v. Inr []),
      max_nesting = 993,
      max_str_digits = 4300,
      unicode_decimal =
        (\<lambda>c. case filter (\<lambda>z. z \<le> c \<and> c < z + 10) decimal_zeros of
               [] \<Rightarrow> None
             | z # _ \<Rightarrow> Some (c - z)),
      stdout_encodable = (\<lambda>c. \<not> (55296 \<le> c \<and> c \<le> 57343))\<rparr>"

text \<open>
  A line for the examples: a JSON object with a blank \<^verbatim>\<open>action\<close> and a second
  member \<^verbatim>\<open>n\<close>, an integer of 4301 digits, all of them the digit 1.
\<close>

definition long_int_line :: ustr where
  "long_int_line = ascii ''{\"action\": \" \", \"n\": '' @ 49 # replicate 4300 49 @ [125]"

section \<open>The reducer\<close>

text \<open>
  \<^verbatim>\<open>counts = defaultdict(int)\<close>: a dictionary keeps its keys in insertion order, so it is
  an association list. \<^verbatim>\<open>counts[action] += count\<close> adds to the total of a key that is
  present, and appends the key with \<open>0 + count\<close> otherwise.
\<close>

type_synonym counts = "(ustr \<times> int) list"

fun dict_add :: "counts \<Rightarrow> ustr \<Rightarrow> int \<Rightarrow> counts" where
  "dict_add [] k c = [(k, 0 + c)]"
| "dict_add ((k', t) # rest) k c =
     (if k' = k then (k', t + c) # rest else (k', t) # dict_add rest k c)"

text \<open>
  What the reducer writes to the diagnostic channel: which of its two messages, and the
  preview \<^verbatim>\<open>line[:80]\<close>. The rendering of the preview by \<^verbatim>\<open>repr\<close> is not modelled.
\<close>

datatype rdiag = SkipMalformed ustr | SkipNonInteger ustr

record rstate =
  counts :: counts
  rerr :: "rdiag list"

definition rinit :: rstate where
  "rinit = \<lparr>counts = [], rerr = []\<rparr>"

text \<open>
  One iteration of the loop over \<^verbatim>\<open>sys.stdin\<close>. The handler \<^verbatim>\<open>except ValueError\<close> is
  the case \<open>None\<close> of \<open>py_int\<close>; nothing else in the loop raises, so
  \<^verbatim>\<open>except Exception\<close> has no case.
\<close>

definition reducer_step :: "pyrt \<Rightarrow> rstate \<Rightarrow> ustr \<Rightarrow> rstate" where
  "reducer_step rt st raw =
     (let line = rstrip_crlf raw in
      if line = [] then st
      else (case split_first TAB line of
              [p0, p1] \<Rightarrow>
                (let action = strip p0; val = strip p1 in
                 if action = [] then st
                 else (case py_int rt val of
                         None \<Rightarrow> st\<lparr>rerr := rerr st @ [SkipNonInteger (take 80 line)]\<rparr>
                       | Some cnt \<Rightarrow> st\<lparr>counts := dict_add (counts st) action cnt\<rparr>))
            | _ \<Rightarrow> st\<lparr>rerr := rerr st @ [SkipMalformed (take 80 line)]\<rparr>))"

definition reducer_loop :: "pyrt \<Rightarrow> ustr list \<Rightarrow> rstate" where
  "reducer_loop rt lines = foldl (reducer_step rt) rinit lines"

text \<open>\<^verbatim>\<open>sorted(counts.items(), key=lambda x: (-x[1], x[0]))\<close>\<close>

definition sort_items :: "counts \<Rightarrow> counts" where
  "sort_items cs = sort_key (\<lambda>(k, t). (- t, k)) cs"

text \<open>
  The Aggregate Result: the entries in the order in which the last loop of \<^verbatim>\<open>main\<close>
  prints them.
\<close>

definition aggregate :: "pyrt \<Rightarrow> ustr list \<Rightarrow> (ustr \<times> int) list" where
  "aggregate rt lines = sort_items (counts (reducer_loop rt lines))"

subsection \<open>What a line contributes\<close>

text \<open>
  The pair that one input line adds to the running totals, when it adds one: the same
  tests as in \<open>reducer_step\<close>, without the state (lemma \<open>counts_reducer_step\<close> below).
\<close>

definition accepted_pair :: "pyrt \<Rightarrow> ustr \<Rightarrow> (ustr \<times> int) option" where
  "accepted_pair rt raw =
     (let line = rstrip_crlf raw in
      if line = [] then None
      else (case split_first TAB line of
              [p0, p1] \<Rightarrow>
                if strip p0 = [] then None
                else map_option (Pair (strip p0)) (py_int rt (strip p1))
            | _ \<Rightarrow> None))"

text \<open>The sum of the counts that the lines of a stream contribute to one key.\<close>

definition key_total :: "pyrt \<Rightarrow> ustr \<Rightarrow> ustr list \<Rightarrow> int" where
  "key_total rt k lines =
     sum_list (map snd (filter (\<lambda>p. fst p = k) (List.map_filter (accepted_pair rt) lines)))"

text \<open>The effect of one line on the totals, seen as a finite map.\<close>

definition map_add_count :: "pyrt \<Rightarrow> ustr \<Rightarrow> (ustr \<rightharpoonup> int) \<Rightarrow> (ustr \<rightharpoonup> int)" where
  "map_add_count rt raw m =
     (case accepted_pair rt raw of
        None \<Rightarrow> m
      | Some (k, c) \<Rightarrow> m(k \<mapsto> (case m k of None \<Rightarrow> 0 | Some t \<Rightarrow> t) + c))"

text \<open>Whether a result of \<open>json_action\<close> or of \<open>parse_line\<close> is a key.\<close>

definition is_key :: "exn + ustr option \<Rightarrow> bool" where
  "is_key r = (case r of Inr (Some k) \<Rightarrow> True | _ \<Rightarrow> False)"

section \<open>Evaluation\<close>

lemma rt0_simps:
  "float_nonzero rt0 t = True"
  "str_other rt0 v = Inr []"
  "max_nesting rt0 = 993"
  "max_str_digits rt0 = 4300"
  "unicode_decimal rt0 c =
     (case filter (\<lambda>z. z \<le> c \<and> c < z + 10) decimal_zeros of
        [] \<Rightarrow> None
      | z # _ \<Rightarrow> Some (c - z))"
  "stdout_encodable rt0 c = (\<not> (55296 \<le> c \<and> c \<le> 57343))"
  by (simp_all add: rt0_def)

lemmas eval_defs =
  ascii_def rstrip_crlf_def is_space_def strip_def split_first_def is_digit_def
  too_many_digits_def digit_of_def int_space_def py_int_def str_int_def json_ws_def
  skip_ws_def hex_val_def decode_uXXXX_def backslash_def digits_val_def match_exp_def
  match_frac_def match_number_def number_value_def starts_with_def scan_literal_def
  json_scan_def json_loads_def dict_of_def dict_get_def py_bool_def py_str_def
  try_json_def json_action_def pipe_action_def parse_line_def emit_def mapper_step_def
  mapper_main_def minit_def rinit_def reducer_step_def reducer_loop_def sort_items_def
  aggregate_def accepted_pair_def is_key_def rt0_simps decimal_zeros_def Let_def

text \<open>The scenarios of the specification, run on the model.\<close>

lemma scenario_json_line:
  "mapper_main rt0 [(ascii ''{\"action\":\"LOGIN\"}'') @ [LF]]
     = \<lparr>mout = [ascii ''LOGIN'' @ TAB # ascii ''1'' @ [LF]], merr = []\<rparr>"
  by (simp add: eval_defs)

lemma scenario_pipe_line:
  "mapper_main rt0 [(ascii ''2024-01-01T00:00:00Z|INFO|u1|VIEW|Page viewed|120|1.2.3.4'') @ [LF]]
     = \<lparr>mout = [ascii ''VIEW'' @ TAB # ascii ''1'' @ [LF]], merr = []\<rparr>"
  by (simp add: eval_defs)

lemma scenario_no_format:
  "mapper_main rt0 [ascii ''not json and no pipes'' @ [LF]]
     = \<lparr>mout = [], merr = [MapperSkip (ascii ''not json and no pipes'' @ [LF])]\<rparr>"
  by (simp add: eval_defs)

lemma scenario_totals:
  "aggregate rt0 [ascii ''A'' @ TAB # ascii ''1'' @ [LF], ascii ''B'' @ TAB # ascii ''2'' @ [LF],
      ascii ''A'' @ TAB # ascii ''3'' @ [LF]]
     = [(ascii ''A'', 4), (ascii ''B'', 2)]"
  by (simp add: eval_defs)

lemma scenario_non_integer:
  "reducer_loop rt0 [ascii ''A'' @ TAB # ascii ''1'' @ [LF], ascii ''X'' @ TAB # ascii ''foo'' @ [LF],
      ascii ''A'' @ TAB # ascii ''3'' @ [LF]]
     = \<lparr>counts = [(ascii ''A'', 4)], rerr = [SkipNonInteger (ascii ''X'' @ TAB # ascii ''foo'')]\<rparr>"
  by (simp add: eval_defs)

lemma scenario_tie:
  "aggregate rt0 [ascii ''B'' @ TAB # ascii ''1'' @ [LF], ascii ''A'' @ TAB # ascii ''1'' @ [LF]]
     = [(ascii ''A'', 1), (ascii ''B'', 1)]"
  by (simp add: eval_defs)

text \<open>
  A count written with digits outside ASCII is read as \<^verbatim>\<open>int\<close> reads it: here the
  Arabic-Indic digit three.
\<close>

lemma scenario_unicode_digit:
  "reducer_loop rt0 [ascii ''A'' @ TAB # ascii ''1'' @ [LF], ascii ''A'' @ [TAB, 1635, LF]]
     = \<lparr>counts = [(ascii ''A'', 4)], rerr = []\<rparr>"
  by (simp add: eval_defs)

section \<open>The bound of the scanner\<close>

text \<open>
  Every scanning function returns a rest that is shorter than its input, so twice the
  length of the text, and one more, is a number of calls that the scanner never needs:
  \<open>json_loads\<close> returns \<^verbatim>\<open>JSONDecodeError\<close> only where \<^verbatim>\<open>json.loads\<close> raises it.
\<close>

lemma skip_ws_le: "length (skip_ws s) \<le> length s"
  by (simp add: skip_ws_def length_dropWhile_le)

lemma skip_ws_Cons: "skip_ws s = x # xs \<Longrightarrow> length xs < length s"
  using skip_ws_le [of s] by simp

lemma scanstring_shorter: "scanstring acc s = Some (str, r) \<Longrightarrow> length r < length s"
proof (induction acc s rule: scanstring.induct)
  case (1 acc)
  then show ?case by simp
next
  case (2 acc c cs)
  note p = "2.prems" [unfolded scanstring.simps(2)]
  show ?case
    using p "2.IH"
    by (fastforce simp del: scanstring.simps split: if_splits list.splits option.splits)
qed

lemma match_frac_len: "length (snd (match_frac s)) \<le> length s"
  by (auto simp: match_frac_def le_SucI length_dropWhile_le split: list.splits)

lemma match_exp_len: "length (snd (match_exp s)) \<le> length s"
proof -
  have "length (dropWhile is_digit (drop n t)) \<le> Suc (length t)" for n t
    using length_dropWhile_le [of is_digit "drop n t"] by simp
  then show ?thesis
    by (auto simp: match_exp_def Let_def split: list.splits)
qed

lemma match_tail_len: "length (snd (match_exp (snd (match_frac t)))) \<le> length t"
  using match_exp_len [of "snd (match_frac t)"] match_frac_len [of t] by simp

lemma match_number_shorter:
  assumes "match_number s = Some (v, r)"
  shows "length r < length s"
proof -
  define r0 where "r0 = (if s \<noteq> [] \<and> hd s = 45 then tl s else s)"
  have r0: "length r0 \<le> length s"
    by (simp add: r0_def)
  obtain x xs where xs: "r0 = x # xs"
    using assms by (cases r0) (simp_all add: match_number_def r0_def Let_def)
  define r1 where "r1 = (if x = 48 then xs else dropWhile is_digit xs)"
  have r1: "length r1 \<le> length xs"
    by (simp add: r1_def length_dropWhile_le)
  have "r = snd (match_exp (snd (match_frac r1)))"
    using assms xs
    by (auto simp: match_number_def r0_def [symmetric] r1_def [symmetric] Let_def
        split: if_splits prod.splits)
  then have "length r \<le> length r1"
    by (simp add: match_tail_len)
  with r0 r1 xs show ?thesis
    by simp
qed

lemma scan_literal_shorter:
  "scan_literal rt (c # cs) = Done v r \<Longrightarrow> length r < length (c # cs)"
  by (auto simp: scan_literal_def starts_with_def
      split: if_splits option.splits sum.splits dest: match_number_shorter)

lemma scan_literal_not_starved: "scan_literal rt s \<noteq> Starved"
  by (simp add: scan_literal_def split: option.splits sum.splits prod.splits)

lemma scan_shorter:
  "scan_once n rt d s = Done v r \<Longrightarrow> length r < length s"
  "json_object n rt d ps s = Done v r \<Longrightarrow> length r < length s"
  "json_array n rt d vs s = Done v r \<Longrightarrow> length r < length s"
proof (induction n rt d s and n rt d ps s and n rt d vs s arbitrary: v r and v r and v r
    rule: scan_once_json_object_json_array.induct)
  case (1 rt d s)
  then show ?case by simp
next
  case (2 n rt d s)
  from "2.prems" obtain c cs where s: "s = c # cs"
    by (cases s) simp_all
  consider (str) "c = 34" | (obj) "c \<noteq> 34" "c = 123" | (arr) "c \<noteq> 34" "c \<noteq> 123" "c = 91"
    | (other) "c \<noteq> 34" "c \<noteq> 123" "c \<noteq> 91"
    by blast
  then show ?case
  proof cases
    case str
    then show ?thesis
      using "2.prems" s by (auto split: option.splits dest: scanstring_shorter)
  next
    case obj
    from "2.prems" s obj have d: "d \<noteq> 0"
      by (auto split: if_splits)
    from "2.prems" s obj d obtain x xs where sk: "skip_ws cs = x # xs"
      by (cases "skip_ws cs") simp_all
    show ?thesis
    proof (cases "x = 125")
      case True
      then show ?thesis
        using "2.prems" s obj d sk skip_ws_Cons [OF sk] by simp
    next
      case False
      with "2.prems" s obj d sk have x: "x = 34"
        and call: "json_object n rt (d - 1) [] xs = Done v r"
        by (simp_all split: if_splits)
      from "2.IH"(1) [OF s obj d sk False x call] skip_ws_Cons [OF sk] s show ?thesis
        by simp
    qed
  next
    case arr
    from "2.prems" s arr have d: "d \<noteq> 0"
      by (auto split: if_splits)
    from "2.prems" s arr d obtain x xs where sk: "skip_ws cs = x # xs"
      by (cases "skip_ws cs") simp_all
    show ?thesis
    proof (cases "x = 93")
      case True
      then show ?thesis
        using "2.prems" s arr d sk skip_ws_Cons [OF sk] by simp
    next
      case False
      with "2.prems" s arr d sk have call: "json_array n rt (d - 1) [] (x # xs) = Done v r"
        by simp
      from "2.IH"(2) [OF s arr d sk False call] skip_ws_Cons [OF sk] s show ?thesis
        by simp
    qed
  next
    case other
    then have "scan_literal rt (c # cs) = Done v r"
      using "2.prems" s by simp
    from scan_literal_shorter [OF this] show ?thesis
      using s by simp
  qed
next
  case (3 rt d pairs s)
  then show ?case by simp
next
  case (4 n rt d pairs s)
  from "4.prems" obtain key r0 where key: "scanstring [] s = Some (key, r0)"
    by (cases "scanstring [] s") auto
  from "4.prems" key obtain c r1 where c: "skip_ws r0 = c # r1"
    by (cases "skip_ws r0") simp_all
  from "4.prems" key c have colon: "\<not> c \<noteq> 58"
    by (auto split: if_splits)
  from "4.prems" key c colon obtain w r2 where val: "scan_once n rt d (skip_ws r1) = Done w r2"
    by (cases "scan_once n rt d (skip_ws r1)") simp_all
  from "4.prems" key c colon val obtain x r3 where x: "skip_ws r2 = x # r3"
    by (cases "skip_ws r2") simp_all
  have l2: "length r2 < length s"
    using "4.IH"(1) [OF key refl c colon val] scanstring_shorter [OF key]
      skip_ws_Cons [OF c] skip_ws_le [of r1]
    by simp
  show ?case
  proof (cases "x = 125")
    case True
    then show ?thesis
      using "4.prems" key c colon val x skip_ws_Cons [OF x] l2 by simp
  next
    case False
    with "4.prems" key c colon val x have comma: "\<not> x \<noteq> 44"
      by (auto split: if_splits)
    from "4.prems" key c colon val x False comma obtain q r4 where q: "skip_ws r3 = q # r4"
      by (cases "skip_ws r3") simp_all
    from "4.prems" key c colon val x False comma q have quote: "\<not> q \<noteq> 34"
      and call: "json_object n rt d (pairs @ [(key, w)]) r4 = Done v r"
      by (auto split: if_splits)
    from "4.IH"(2) [OF key refl c colon val x False comma q quote call]
      skip_ws_Cons [OF q] skip_ws_Cons [OF x] l2
    show ?thesis
      by simp
  qed
next
  case (5 rt d vals s)
  then show ?case by simp
next
  case (6 n rt d vals s)
  from "6.prems" obtain w r0 where val: "scan_once n rt d s = Done w r0"
    by (cases "scan_once n rt d s") simp_all
  from "6.prems" val obtain x r1 where x: "skip_ws r0 = x # r1"
    by (cases "skip_ws r0") simp_all
  note l0 = "6.IH"(1) [OF val]
  show ?case
  proof (cases "x = 93")
    case True
    then show ?thesis
      using "6.prems" val x skip_ws_Cons [OF x] l0 by simp
  next
    case False
    with "6.prems" val x have comma: "\<not> x \<noteq> 44"
      and call: "json_array n rt d (vals @ [w]) (skip_ws r1) = Done v r"
      by (auto split: if_splits)
    from "6.IH"(2) [OF val x False comma call] skip_ws_le [of r1] skip_ws_Cons [OF x] l0
    show ?thesis
      by simp
  qed
qed

lemma scan_not_starved:
  "2 * length s < n \<Longrightarrow> scan_once n rt d s \<noteq> Starved"
  "2 * length s < n \<Longrightarrow> json_object n rt d ps s \<noteq> Starved"
  "2 * length s + 1 < n \<Longrightarrow> json_array n rt d vs s \<noteq> Starved"
proof (induction n rt d s and n rt d ps s and n rt d vs s
    rule: scan_once_json_object_json_array.induct)
  case (1 rt d s)
  then show ?case by simp
next
  case (2 n rt d s)
  show ?case
  proof (cases s)
    case Nil
    then show ?thesis by simp
  next
    case s: (Cons c cs)
    consider (str) "c = 34" | (obj) "c \<noteq> 34" "c = 123" | (arr) "c \<noteq> 34" "c \<noteq> 123" "c = 91"
      | (other) "c \<noteq> 34" "c \<noteq> 123" "c \<noteq> 91"
      by blast
    then show ?thesis
    proof cases
      case str
      then show ?thesis
        using s by (simp split: option.splits)
    next
      case obj
      show ?thesis
      proof (cases "d = 0")
        case True
        then show ?thesis using s obj by simp
      next
        case d: False
        show ?thesis
        proof (cases "skip_ws cs")
          case Nil
          then show ?thesis using s obj d by simp
        next
          case sk: (Cons x xs)
          have "2 * length xs < n"
            using skip_ws_Cons [OF sk] "2.prems" s by simp
          then have "x \<noteq> 125 \<Longrightarrow> x = 34 \<Longrightarrow> json_object n rt (d - 1) [] xs \<noteq> Starved"
            using "2.IH"(1) [OF s obj d sk] by simp
          then show ?thesis
            using s obj d sk by simp
        qed
      qed
    next
      case arr
      show ?thesis
      proof (cases "d = 0")
        case True
        then show ?thesis using s arr by simp
      next
        case d: False
        show ?thesis
        proof (cases "skip_ws cs")
          case Nil
          then show ?thesis using s arr d by simp
        next
          case sk: (Cons x xs)
          have "2 * length (x # xs) + 1 < n"
            using skip_ws_Cons [OF sk] "2.prems" s by simp
          then have "x \<noteq> 93 \<Longrightarrow> json_array n rt (d - 1) [] (x # xs) \<noteq> Starved"
            using "2.IH"(2) [OF s arr d sk] by simp
          then show ?thesis
            using s arr d sk by simp
        qed
      qed
    next
      case other
      then show ?thesis
        using s by (simp add: scan_literal_not_starved)
    qed
  qed
next
  case (3 rt d pairs s)
  then show ?case by simp
next
  case (4 n rt d pairs s)
  show ?case
  proof (cases "scanstring [] s")
    case None
    then show ?thesis by simp
  next
    case (Some a)
    obtain key r0 where key: "scanstring [] s = Some (key, r0)"
      using Some by (cases a) simp
    show ?thesis
    proof (cases "skip_ws r0")
      case Nil
      then show ?thesis using key by simp
    next
      case c: (Cons c r1)
      show ?thesis
      proof (cases "c \<noteq> 58")
        case True
        then show ?thesis using key c by simp
      next
        case colon: False
        have l1: "length (skip_ws r1) + 2 \<le> length s"
          using scanstring_shorter [OF key] skip_ws_Cons [OF c] skip_ws_le [of r1] by simp
        then have "2 * length (skip_ws r1) < n"
          using "4.prems" by simp
        from "4.IH"(1) [OF key refl c colon this]
        have ns: "scan_once n rt d (skip_ws r1) \<noteq> Starved" .
        show ?thesis
        proof (cases "scan_once n rt d (skip_ws r1)")
          case (Raised e)
          then show ?thesis using key c colon by simp
        next
          case Starved
          with ns show ?thesis by simp
        next
          case val: (Done w r2)
          have l2: "length r2 < length (skip_ws r1)"
            by (rule scan_shorter(1) [OF val])
          show ?thesis
          proof (cases "skip_ws r2")
            case Nil
            then show ?thesis using key c colon val by simp
          next
            case x: (Cons x r3)
            show ?thesis
            proof (cases "x = 125 \<or> x \<noteq> 44")
              case True
              then show ?thesis using key c colon val x by auto
            next
              case False
              then have x1: "x \<noteq> 125" and x2: "\<not> x \<noteq> 44" by simp_all
              show ?thesis
              proof (cases "skip_ws r3")
                case Nil
                then show ?thesis using key c colon val x x1 x2 by simp
              next
                case q: (Cons q r4)
                show ?thesis
                proof (cases "q \<noteq> 34")
                  case True
                  then show ?thesis using key c colon val x x1 x2 q by simp
                next
                  case quote: False
                  have "2 * length r4 < n"
                    using skip_ws_Cons [OF q] skip_ws_Cons [OF x] l2 l1 "4.prems" by simp
                  from "4.IH"(2) [OF key refl c colon val x x1 x2 q quote this]
                  show ?thesis
                    using key c colon val x x1 x2 q quote by simp
                qed
              qed
            qed
          qed
        qed
      qed
    qed
  qed
next
  case (5 rt d vals s)
  then show ?case by simp
next
  case (6 n rt d vals s)
  have "2 * length s < n"
    using "6.prems" by simp
  from "6.IH"(1) [OF this] have ns: "scan_once n rt d s \<noteq> Starved" .
  show ?case
  proof (cases "scan_once n rt d s")
    case (Raised e)
    then show ?thesis by simp
  next
    case Starved
    with ns show ?thesis by simp
  next
    case val: (Done w r0)
    have l0: "length r0 < length s"
      by (rule scan_shorter(1) [OF val])
    show ?thesis
    proof (cases "skip_ws r0")
      case Nil
      then show ?thesis using val by simp
    next
      case x: (Cons x r1)
      show ?thesis
      proof (cases "x = 93 \<or> x \<noteq> 44")
        case True
        then show ?thesis using val x by auto
      next
        case False
        then have x1: "x \<noteq> 93" and x2: "\<not> x \<noteq> 44" by simp_all
        have "2 * length (skip_ws r1) + 1 < n"
          using skip_ws_le [of r1] skip_ws_Cons [OF x] l0 "6.prems" by simp
        from "6.IH"(2) [OF val x x1 x2 this] show ?thesis
          using val x x1 x2 by simp
      qed
    qed
  qed
qed

lemma json_loads_not_starved: "json_scan rt s \<noteq> Starved"
  unfolding json_scan_def using skip_ws_le [of s] by (intro scan_not_starved(1)) simp

section \<open>The limits of the interpreter\<close>

text \<open>
  A text with more digits than the limit is not an integer for \<^verbatim>\<open>int\<close>, whatever
  its digits are: the reducer reports a count of 4301 digits.
\<close>

lemma dropWhile_none: "\<forall>x\<in>set xs. \<not> P x \<Longrightarrow> dropWhile P xs = xs"
  by (cases xs) simp_all

lemma py_int_over_limit:
  assumes "\<forall>c\<in>set s. is_digit c" and "too_many_digits rt (length s)"
  shows "py_int rt s = None"
proof (cases s)
  case Nil
  then show ?thesis by (simp add: py_int_def)
next
  case (Cons c cs)
  have ns: "\<forall>x\<in>set s. \<not> int_space x"
    using assms(1) by (auto simp: int_space_def is_space_def is_digit_def)
  have "dropWhile int_space (rev s) = rev s"
    by (rule dropWhile_none) (simp add: ns)
  moreover have "dropWhile int_space s = s"
    using ns by (rule dropWhile_none)
  moreover have "c \<noteq> 45" "c \<noteq> 43" "filter (\<lambda>d. d \<noteq> 95) s = s"
    using assms(1) Cons by (auto simp: is_digit_def filter_id_conv)
  ultimately show ?thesis
    using assms(2) Cons by (auto simp: py_int_def Let_def split: option.splits)
qed

lemma reducer_step_over_limit:
  "reducer_step rt0 rinit (ascii ''A'' @ TAB # replicate 4301 49)
     = \<lparr>counts = [], rerr = [SkipNonInteger (take 80 (ascii ''A'' @ TAB # replicate 4301 49))]\<rparr>"
proof -
  have "py_int rt0 (replicate 4301 49) = None"
    by (rule py_int_over_limit) (simp_all add: is_digit_def too_many_digits_def rt0_simps)
  moreover have "rstrip_crlf (ascii ''A'' @ TAB # replicate 4301 49)
      = ascii ''A'' @ TAB # replicate 4301 49"
    by (simp add: rstrip_crlf_def ascii_def)
  moreover have "strip (replicate 4301 49) = replicate 4301 49"
    by (simp add: strip_def is_space_def dropWhile_eq_self_iff hd_rev)
  ultimately show ?thesis
    by (simp add: reducer_step_def split_first_def ascii_def strip_def is_space_def rinit_def)
qed

text \<open>
  Arrays nested one level deeper than the scanner can enter raise \<^verbatim>\<open>RecursionError\<close>,
  whatever follows them. The handler of \<open>parse_line\<close> does not take this exception, so
  it leaves \<open>parse_line\<close> although the line has four pipe-separated fields, and the mapper
  reports an error and writes no pair.
\<close>

lemma deep_array_raises:
  "2 * d < n \<Longrightarrow> scan_once n rt d (replicate (Suc d) 91 @ rest) = Raised RecursionError"
proof (induction d arbitrary: n)
  case 0
  then obtain m where "n = Suc m"
    by (cases n) simp_all
  then show ?case by simp
next
  case (Suc d)
  then obtain m where n: "n = Suc (Suc m)" and m: "2 * d < m"
    by (cases n; cases "n - 1") simp_all
  have "skip_ws (replicate (Suc d) 91 @ rest) = 91 # replicate d 91 @ rest"
    by (simp add: skip_ws_def json_ws_def)
  moreover have "scan_once m rt d (91 # replicate d 91 @ rest) = Raised RecursionError"
    using Suc.IH [OF m] by simp
  ultimately show ?case
    by (simp add: n)
qed

lemma json_loads_deep: "json_loads rt (replicate (Suc (max_nesting rt)) 91 @ rest) = Inl RecursionError"
proof -
  let ?s = "replicate (Suc (max_nesting rt)) 91 @ rest"
  have "skip_ws ?s = ?s"
    by (simp add: skip_ws_def json_ws_def)
  moreover have "scan_once (Suc (length ?s + length ?s)) rt (max_nesting rt) ?s
      = Raised RecursionError"
    by (rule deep_array_raises) simp
  ultimately show ?thesis
    by (simp add: json_loads_def json_scan_def)
qed

lemma parse_line_deep:
  "parse_line rt (replicate (Suc (max_nesting rt)) 91 @ ascii ''|b|c|d'') = Inl RecursionError"
proof -
  let ?s = "replicate (Suc (max_nesting rt)) 91 @ ascii ''|b|c|d''"
  have r: "rstrip_crlf ?s = ?s"
    by (simp add: rstrip_crlf_def ascii_def)
  show ?thesis
    unfolding parse_line_def r Let_def json_action_def try_json_def json_loads_deep by simp
qed

lemma mapper_step_deep:
  "mapper_step rt st (replicate (Suc (max_nesting rt)) 91 @ ascii ''|b|c|d'')
     = st\<lparr>merr := merr st @ [MapperError RecursionError]\<rparr>"
  unfolding mapper_step_def parse_line_deep by simp

text \<open>
  \<^verbatim>\<open>print\<close> raises for a key that standard output cannot encode, and nothing is
  written: a lone surrogate from a JSON escape, with standard output in UTF-8.
\<close>

lemma mapper_step_surrogate:
  "mapper_step rt0 minit (ascii ''{\"action\": \"'' @ 92 # ascii ''ud800\"}'')
     = \<lparr>mout = [], merr = [MapperError UnicodeEncodeError]\<rparr>"
  by (simp add: eval_defs)

section \<open>The running totals\<close>

lemma dict_add_keys: "fst ` set (dict_add cs k c) = insert k (fst ` set cs)"
  by (induction cs k c rule: dict_add.induct) auto

lemma dict_add_distinct:
  "distinct (map fst cs) \<Longrightarrow> distinct (map fst (dict_add cs k c))"
  by (induction cs k c rule: dict_add.induct) (auto simp: dict_add_keys)

lemma map_of_dict_add:
  "map_of (dict_add cs k c) =
     (map_of cs)(k \<mapsto> (case map_of cs k of None \<Rightarrow> 0 | Some t \<Rightarrow> t) + c)"
  by (induction cs k c rule: dict_add.induct) (auto simp: fun_eq_iff)

lemma counts_reducer_step:
  "counts (reducer_step rt st raw) =
     (case accepted_pair rt raw of
        None \<Rightarrow> counts st
      | Some (k, c) \<Rightarrow> dict_add (counts st) k c)"
  by (simp add: reducer_step_def accepted_pair_def  Let_def split: list.splits option.splits)

lemma distinct_counts_step:
  "distinct (map fst (counts st)) \<Longrightarrow> distinct (map fst (counts (reducer_step rt st raw)))"
  by (simp add: counts_reducer_step dict_add_distinct split: option.splits)

lemma distinct_counts_foldl:
  "distinct (map fst (counts st)) \<Longrightarrow>
   distinct (map fst (counts (foldl (reducer_step rt) st lines)))"
  by (induction lines arbitrary: st) (simp_all add: distinct_counts_step)

lemma distinct_counts_loop: "distinct (map fst (counts (reducer_loop rt lines)))"
  by (simp add: reducer_loop_def rinit_def distinct_counts_foldl)

lemma map_of_counts_step:
  "map_of (counts (reducer_step rt st raw)) = map_add_count rt raw (map_of (counts st))"
  by (simp add: counts_reducer_step map_add_count_def map_of_dict_add split: option.splits)

lemma map_of_counts_foldl:
  "map_of (counts (foldl (reducer_step rt) st lines)) =
     fold (map_add_count rt) lines (map_of (counts st))"
  by (induction lines arbitrary: st) (simp_all add: map_of_counts_step)

lemma map_add_count_commute:
  "map_add_count rt a \<circ> map_add_count rt b = map_add_count rt b \<circ> map_add_count rt a"
  by (auto simp: map_add_count_def fun_eq_iff split: option.splits)

lemma split_first_no_sep:
  assumes "sep \<notin> set s"
  shows "split_first sep s = [s]"
proof -
  have none: "dropWhile (\<lambda>c. c \<noteq> sep) s = []"
    using assms by auto
  show ?thesis
    unfolding split_first_def none by simp
qed

lemma split_first_sep:
  assumes "sep \<in> set s"
  shows "split_first sep s =
           [takeWhile (\<lambda>c. c \<noteq> sep) s, tl (dropWhile (\<lambda>c. c \<noteq> sep) s)]"
proof -
  have "dropWhile (\<lambda>c. c \<noteq> sep) s \<noteq> []"
    using assms by auto
  then show ?thesis
    by (cases "dropWhile (\<lambda>c. c \<noteq> sep) s") (simp_all add: split_first_def)
qed

lemma key_total_absent:
  assumes "k \<notin> fst ` set (List.map_filter (accepted_pair rt) lines)"
  shows "key_total rt k lines = 0"
proof -
  have none: "filter (\<lambda>p. fst p = k) (List.map_filter (accepted_pair rt) lines) = []"
    using assms by (auto simp: filter_empty_conv)
  show ?thesis
    unfolding key_total_def none by simp
qed

lemma fold_map_add_count:
  "fold (map_add_count rt) lines m k =
     (if k \<in> fst ` set (List.map_filter (accepted_pair rt) lines)
      then Some ((case m k of None \<Rightarrow> 0 | Some t \<Rightarrow> t) + key_total rt k lines)
      else m k)"
proof (induction lines arbitrary: m)
  case Nil
  then show ?case by simp
next
  case (Cons raw lines)
  have step: "fold (map_add_count rt) (raw # lines) m k =
                (if k \<in> fst ` set (List.map_filter (accepted_pair rt) lines)
                 then Some ((case map_add_count rt raw m k of None \<Rightarrow> 0 | Some t \<Rightarrow> t)
                            + key_total rt k lines)
                 else map_add_count rt raw m k)"
    using Cons.IH [of "map_add_count rt raw m"] by simp
  show ?case
  proof (cases "accepted_pair rt raw")
    case None
    then have "map_add_count rt raw m = m"
      and "List.map_filter (accepted_pair rt) (raw # lines) = List.map_filter (accepted_pair rt) lines"
      by (simp_all add: map_add_count_def)
    then show ?thesis
      using step by (simp add: key_total_def)
  next
    case (Some p)
    obtain k' c where p: "p = (k', c)" by (cases p)
    have m': "map_add_count rt raw m = m(k' \<mapsto> (case m k' of None \<Rightarrow> 0 | Some t \<Rightarrow> t) + c)"
      by (simp add: map_add_count_def Some p)
    have l: "List.map_filter (accepted_pair rt) (raw # lines)
               = (k', c) # List.map_filter (accepted_pair rt) lines"
      by (simp add: Some p)
    have kt: "key_total rt k (raw # lines) = (if k' = k then c else 0) + key_total rt k lines"
      unfolding key_total_def l by simp
    show ?thesis
      unfolding step l kt m' by (auto simp: key_total_absent split: option.splits)
  qed
qed

lemma aggregate_entry:
  "(k, t) \<in> set (aggregate rt lines) \<longleftrightarrow>
     k \<in> fst ` set (List.map_filter (accepted_pair rt) lines) \<and> t = key_total rt k lines"
proof -
  have "(k, t) \<in> set (aggregate rt lines) \<longleftrightarrow> map_of (counts (reducer_loop rt lines)) k = Some t"
    using distinct_counts_loop [of rt lines] by (simp add: aggregate_def sort_items_def)
  also have "\<dots> \<longleftrightarrow> fold (map_add_count rt) lines Map.empty k = Some t"
    by (simp add: reducer_loop_def map_of_counts_foldl rinit_def)
  finally show ?thesis
    by (auto simp: fold_map_add_count)
qed

lemma key_total_nonneg:
  assumes "\<forall>raw\<in>set lines. \<forall>k' c. accepted_pair rt raw = Some (k', c) \<longrightarrow> 0 \<le> c"
  shows "0 \<le> key_total rt k lines"
proof -
  have "\<forall>p\<in>set (List.map_filter (accepted_pair rt) lines). 0 \<le> snd p"
    using assms by (auto simp: map_filter_def)
  then show ?thesis
    unfolding key_total_def by (intro sum_list_nonneg) auto
qed

section \<open>The order of the output\<close>

lemma sort_items_strict:
  assumes "distinct (map fst cs)"
  shows "sorted_wrt (<) (map (\<lambda>(k, t). (- t, k)) (sort_items cs))"
proof -
  let ?f = "\<lambda>(k, t). (- t, k) :: int \<times> ustr"
  have "inj_on ?f (set cs)"
    by (auto simp: inj_on_def)
  moreover have "distinct cs"
    using assms by (simp add: distinct_map)
  ultimately have "distinct (map ?f (sort_items cs))"
    by (simp add: sort_items_def distinct_map)
  moreover have "sorted (map ?f (sort_items cs))"
    unfolding sort_items_def by (rule sorted_sort_key)
  ultimately show ?thesis
    by (simp add: strict_sorted_iff)
qed

lemma sort_items_cong:
  assumes "distinct (map fst xs)" "distinct (map fst ys)" "map_of xs = map_of ys"
  shows "sort_items xs = sort_items ys"
proof -
  let ?f = "\<lambda>(k, t). (- t, k) :: int \<times> ustr"
  have s: "set xs = set ys"
    using assms by (simp add: map_of_inject_set)
  have "map ?f (sort_items xs) = map ?f (sort_items ys)"
  proof (rule sorted_distinct_set_unique)
    show "sorted (map ?f (sort_items xs))" "sorted (map ?f (sort_items ys))"
      using sort_items_strict assms by (simp_all add: strict_sorted_iff)
    show "distinct (map ?f (sort_items xs))" "distinct (map ?f (sort_items ys))"
      using sort_items_strict assms by (simp_all add: strict_sorted_iff)
    show "set (map ?f (sort_items xs)) = set (map ?f (sort_items ys))"
      using s by (simp add: sort_items_def)
  qed
  moreover have "inj_on ?f (set (sort_items xs) \<union> set (sort_items ys))"
    by (auto simp: inj_on_def)
  ultimately show ?thesis
    by (simp add: inj_on_map_eq_map)
qed

text \<open>
  C1. In the output of the reducer, an entry printed before another never has the
  smaller total, and when the two totals are equal it has the strictly smaller key.
\<close>

theorem aggregate_sorted:
  assumes "i < j" and "j < length (aggregate rt lines)"
  shows "snd (aggregate rt lines ! j) \<le> snd (aggregate rt lines ! i) \<and>
         (snd (aggregate rt lines ! i) = snd (aggregate rt lines ! j) \<longrightarrow>
            fst (aggregate rt lines ! i) < fst (aggregate rt lines ! j))"
proof -
  let ?out = "aggregate rt lines"
  have "sorted_wrt (<) (map (\<lambda>(k, t). (- t, k)) ?out)"
    unfolding aggregate_def by (rule sort_items_strict) (rule distinct_counts_loop)
  then have "sorted_wrt (\<lambda>a b. (- snd a, fst a) < (- snd b, fst b)) ?out"
    by (simp add: sorted_wrt_map case_prod_unfold)
  then have "(- snd (?out ! i), fst (?out ! i)) < (- snd (?out ! j), fst (?out ! j))"
    using assms by (simp add: sorted_wrt_iff_nth_less)
  then show ?thesis
    by (auto simp: less_prod_def)
qed

theorem aggregate_sorted_witness:
  "aggregate rt0 [ascii ''B'' @ TAB # ascii ''1'', ascii ''A'' @ TAB # ascii ''1'']
     = [(ascii ''A'', 1), (ascii ''B'', 1)] \<and>
   snd (aggregate rt0 [ascii ''B'' @ TAB # ascii ''1'', ascii ''A'' @ TAB # ascii ''1''] ! 1)
     = snd (aggregate rt0 [ascii ''B'' @ TAB # ascii ''1'', ascii ''A'' @ TAB # ascii ''1''] ! 0) \<and>
   fst (aggregate rt0 [ascii ''B'' @ TAB # ascii ''1'', ascii ''A'' @ TAB # ascii ''1''] ! 0)
     < fst (aggregate rt0 [ascii ''B'' @ TAB # ascii ''1'', ascii ''A'' @ TAB # ascii ''1''] ! 1)"
proof -
  let ?lines = "[ascii ''B'' @ TAB # ascii ''1'', ascii ''A'' @ TAB # ascii ''1'']"
  have out: "aggregate rt0 ?lines = [(ascii ''A'', 1), (ascii ''B'', 1)]"
    by (simp add: eval_defs)
  have "(0::nat) < 1" and "1 < length (aggregate rt0 ?lines)"
    by (simp_all add: out)
  from aggregate_sorted [OF this] show ?thesis
    by (simp add: out)
qed

text \<open>
  C2. Two input streams with the same lines, in any order, give the same output: the
  same entries in the same order.
\<close>

theorem aggregate_permutation:
  assumes "mset xs = mset ys"
  shows "aggregate rt xs = aggregate rt ys"
proof -
  have "fold (map_add_count rt) xs = fold (map_add_count rt) ys"
    using assms by (intro fold_multiset_equiv) (simp_all add: map_add_count_commute)
  then have "map_of (counts (reducer_loop rt xs)) = map_of (counts (reducer_loop rt ys))"
    by (simp add: reducer_loop_def map_of_counts_foldl)
  then show ?thesis
    unfolding aggregate_def by (intro sort_items_cong distinct_counts_loop)
qed

theorem aggregate_permutation_witness:
  "mset [ascii ''B'' @ TAB # ascii ''2'', ascii ''A'' @ TAB # ascii ''1'', ascii ''A'' @ TAB # ascii ''3'']
     = mset [ascii ''A'' @ TAB # ascii ''3'', ascii ''B'' @ TAB # ascii ''2'', ascii ''A'' @ TAB # ascii ''1''] \<and>
   aggregate rt0 [ascii ''B'' @ TAB # ascii ''2'', ascii ''A'' @ TAB # ascii ''1'', ascii ''A'' @ TAB # ascii ''3'']
     = aggregate rt0 [ascii ''A'' @ TAB # ascii ''3'', ascii ''B'' @ TAB # ascii ''2'', ascii ''A'' @ TAB # ascii ''1''] \<and>
   aggregate rt0 [ascii ''A'' @ TAB # ascii ''3'', ascii ''B'' @ TAB # ascii ''2'', ascii ''A'' @ TAB # ascii ''1'']
     = [(ascii ''A'', 4), (ascii ''B'', 2)]"
proof -
  let ?xs = "[ascii ''B'' @ TAB # ascii ''2'', ascii ''A'' @ TAB # ascii ''1'', ascii ''A'' @ TAB # ascii ''3'']"
  let ?ys = "[ascii ''A'' @ TAB # ascii ''3'', ascii ''B'' @ TAB # ascii ''2'', ascii ''A'' @ TAB # ascii ''1'']"
  have m: "mset ?xs = mset ?ys"
    by (simp add: ascii_def)
  have "aggregate rt0 ?ys = [(ascii ''A'', 4), (ascii ''B'', 2)]"
    by (simp add: eval_defs)
  with m aggregate_permutation [OF m, of rt0] show ?thesis
    by simp
qed

section \<open>Totals\<close>

text \<open>
  C9, as stated, fails: a count may be negative, and then so may a total.
\<close>

theorem aggregate_negative_total_counterexample:
  "aggregate rt0 [ascii ''A'' @ TAB # ascii ''-1''] = [(ascii ''A'', - 1)] \<and>
   \<not> 0 \<le> snd (aggregate rt0 [ascii ''A'' @ TAB # ascii ''-1''] ! 0)"
  by (simp add: eval_defs)

text \<open>
  C9, amended. The total of every entry of the output is the sum of the counts that the
  lines of the input contribute to its key, each count as \<^verbatim>\<open>int\<close> reads it: a total
  starts at 0 and only receives added counts. It is not negative when no line
  contributes a negative count.
\<close>

theorem aggregate_total:
  assumes "(k, t) \<in> set (aggregate rt lines)"
  shows "t = key_total rt k lines \<and>
         ((\<forall>raw\<in>set lines. \<forall>k' c. accepted_pair rt raw = Some (k', c) \<longrightarrow> 0 \<le> c) \<longrightarrow> 0 \<le> t)"
  using assms by (simp add: aggregate_entry key_total_nonneg)

theorem aggregate_total_witness:
  "accepted_pair rt0 (ascii ''A'' @ TAB # ascii ''1'') = Some (ascii ''A'', 1) \<and>
   accepted_pair rt0 (ascii ''B'' @ TAB # ascii ''2'') = Some (ascii ''B'', 2) \<and>
   accepted_pair rt0 (ascii ''A'' @ [TAB, 1635]) = Some (ascii ''A'', 3) \<and>
   (ascii ''A'', 4) \<in> set (aggregate rt0 [ascii ''A'' @ TAB # ascii ''1'',
      ascii ''B'' @ TAB # ascii ''2'', ascii ''A'' @ [TAB, 1635]]) \<and>
   key_total rt0 (ascii ''A'') [ascii ''A'' @ TAB # ascii ''1'',
      ascii ''B'' @ TAB # ascii ''2'', ascii ''A'' @ [TAB, 1635]] = 4 \<and>
   (0::int) \<le> 4"
proof -
  let ?l1 = "ascii ''A'' @ TAB # ascii ''1''"
  let ?l2 = "ascii ''B'' @ TAB # ascii ''2''"
  let ?l3 = "ascii ''A'' @ [TAB, 1635]"
  have p: "accepted_pair rt0 ?l1 = Some (ascii ''A'', 1)"
    "accepted_pair rt0 ?l2 = Some (ascii ''B'', 2)"
    "accepted_pair rt0 ?l3 = Some (ascii ''A'', 3)"
    by (simp_all add: eval_defs)
  have "aggregate rt0 [?l1, ?l2, ?l3] = [(ascii ''A'', 4), (ascii ''B'', 2)]"
    by (simp add: eval_defs)
  then have m: "(ascii ''A'', 4) \<in> set (aggregate rt0 [?l1, ?l2, ?l3])"
    by simp
  have "\<forall>raw\<in>set [?l1, ?l2, ?l3]. \<forall>k' c. accepted_pair rt0 raw = Some (k', c) \<longrightarrow> 0 \<le> c"
    using p by auto
  with aggregate_total [OF m] p m show ?thesis
    by simp
qed

section \<open>The diagnostics of the reducer\<close>

text \<open>
  C8, as stated, fails for a line with more than one tab: only the first tab splits, so
  such a line has two parts, and here it is counted.
\<close>

theorem reducer_two_tabs_counterexample:
  "rstrip_crlf (ascii ''A'' @ TAB # ascii ''1'' @ [TAB]) \<noteq> [] \<and>
   count_list (ascii ''A'' @ TAB # ascii ''1'' @ [TAB]) TAB = 2 \<and>
   reducer_step rt0 rinit (ascii ''A'' @ TAB # ascii ''1'' @ [TAB])
     = \<lparr>counts = [(ascii ''A'', 1)], rerr = []\<rparr>"
  by (simp add: eval_defs)

text \<open>
  C8, amended. With \<open>line\<close> the input line without its line terminator:
  a non-empty line without a tab is reported as malformed and changes nothing else;
  a line with a tab is never reported as malformed; the non-integer diagnostic is given
  exactly when the line has a tab, the text before its first tab is not blank, and
  \<^verbatim>\<open>int\<close> raises \<^verbatim>\<open>ValueError\<close> for the text after its first tab, trimmed; and a line
  that is reported leaves the totals as they were.
\<close>

theorem reducer_step_diagnostics:
  "(rstrip_crlf raw \<noteq> [] \<and> TAB \<notin> set (rstrip_crlf raw) \<longrightarrow>
      reducer_step rt st raw = st\<lparr>rerr := rerr st @ [SkipMalformed (take 80 (rstrip_crlf raw))]\<rparr>) \<and>
   (TAB \<in> set (rstrip_crlf raw) \<longrightarrow>
      rerr (reducer_step rt st raw) \<noteq> rerr st @ [SkipMalformed p]) \<and>
   (rerr (reducer_step rt st raw) = rerr st @ [SkipNonInteger p] \<longleftrightarrow>
      TAB \<in> set (rstrip_crlf raw) \<and>
      strip (takeWhile (\<lambda>c. c \<noteq> TAB) (rstrip_crlf raw)) \<noteq> [] \<and>
      py_int rt (strip (tl (dropWhile (\<lambda>c. c \<noteq> TAB) (rstrip_crlf raw)))) = None \<and>
      p = take 80 (rstrip_crlf raw)) \<and>
   (rerr (reducer_step rt st raw) \<noteq> rerr st \<longrightarrow> counts (reducer_step rt st raw) = counts st)"
proof (cases "TAB \<in> set (rstrip_crlf raw)")
  case True
  then have "rstrip_crlf raw \<noteq> []" by auto
  with True show ?thesis
    by (auto simp: reducer_step_def Let_def split_first_sep split: option.splits)
next
  case False
  then show ?thesis
    by (auto simp: reducer_step_def Let_def split_first_no_sep)
qed

theorem reducer_step_diagnostics_witness:
  "rstrip_crlf (ascii ''A 1'') \<noteq> [] \<and> TAB \<notin> set (rstrip_crlf (ascii ''A 1'')) \<and>
   reducer_step rt0 rinit (ascii ''A 1'') = \<lparr>counts = [], rerr = [SkipMalformed (ascii ''A 1'')]\<rparr> \<and>
   TAB \<in> set (rstrip_crlf (ascii ''X'' @ TAB # ascii ''foo'')) \<and>
   py_int rt0 (ascii ''foo'') = None \<and>
   rerr (reducer_step rt0 rinit (ascii ''X'' @ TAB # ascii ''foo''))
     = [SkipNonInteger (ascii ''X'' @ TAB # ascii ''foo'')] \<and>
   counts (reducer_step rt0 rinit (ascii ''X'' @ TAB # ascii ''foo'')) = []"
proof -
  let ?a = "ascii ''A 1''"
  let ?x = "ascii ''X'' @ TAB # ascii ''foo''"
  have a: "rstrip_crlf ?a \<noteq> [] \<and> TAB \<notin> set (rstrip_crlf ?a)"
    by (simp add: eval_defs)
  have x: "TAB \<in> set (rstrip_crlf ?x)"
    "strip (takeWhile (\<lambda>c. c \<noteq> TAB) (rstrip_crlf ?x)) \<noteq> []"
    "py_int rt0 (strip (tl (dropWhile (\<lambda>c. c \<noteq> TAB) (rstrip_crlf ?x)))) = None"
    "take 80 (rstrip_crlf ?x) = ?x" "py_int rt0 (ascii ''foo'') = None"
    by (simp_all add: eval_defs)
  have r: "rerr rinit = []" "counts rinit = []" "take 80 (rstrip_crlf ?a) = ?a"
    by (simp_all add: eval_defs)
  from reducer_step_diagnostics [of ?a rt0 rinit "[]"]
    reducer_step_diagnostics [of ?x rt0 rinit ?x] a x r
  show ?thesis
    by (simp add: rinit_def)
qed

section \<open>The parser\<close>

lemma json_loads_Nil: "json_loads rt [] = Inl JSONDecodeError"
  by (simp add: json_loads_def json_scan_def skip_ws_def)

lemma strip_Nil: "strip [] = []"
  by (simp add: strip_def)

lemma strip_first: "strip s \<noteq> [] \<Longrightarrow> \<not> is_space (hd (strip s))"
  unfolding strip_def by (rule hd_dropWhile)

lemma strip_last:
  assumes "strip s \<noteq> []" shows "\<not> is_space (last (strip s))"
proof -
  let ?u = "dropWhile is_space (rev s)"
  have ne: "dropWhile is_space (rev ?u) \<noteq> []"
    using assms by (simp add: strip_def)
  then have u: "?u \<noteq> []"
    by (metis dropWhile.simps(1) rev.simps(1))
  have "last (dropWhile is_space (rev ?u)) = last (rev ?u)"
    using ne by (metis last_appendR takeWhile_dropWhile_id)
  also have "\<dots> = hd ?u"
    using u by (simp add: last_rev)
  finally show ?thesis
    using hd_dropWhile [OF u] by (simp add: strip_def)
qed

lemma strip_idem: "strip (strip s) = strip s"
proof (cases "strip s = []")
  case True
  show ?thesis
    unfolding True by (simp add: strip_def)
next
  case False
  let ?t = "strip s"
  have "dropWhile is_space (rev ?t) = rev ?t"
    using False strip_last [OF False] by (simp add: dropWhile_eq_self_iff hd_rev)
  moreover have "dropWhile is_space ?t = ?t"
    using strip_first [OF False] by (simp add: dropWhile_eq_self_iff)
  ultimately show ?thesis
    by (simp add: strip_def [of "strip s"])
qed

text \<open>
  When the \<^verbatim>\<open>try\<close> statement ends without a key, and when an exception leaves it.
\<close>

lemma json_action_None_iff:
  "json_action rt line = Inr None \<longleftrightarrow>
     try_json rt line = Inr None \<or> try_json rt line = Inl JSONDecodeError \<or>
     try_json rt line = Inl TypeError"
  by (auto simp: json_action_def split: sum.splits if_splits)

lemma json_action_raises_iff:
  "json_action rt line = Inl e \<longleftrightarrow>
     try_json rt line = Inl e \<and> e \<noteq> JSONDecodeError \<and> e \<noteq> TypeError"
  by (auto simp: json_action_def split: sum.splits if_splits)

lemma parse_line_raises:
  "rstrip_crlf raw \<noteq> [] \<Longrightarrow> json_action rt (rstrip_crlf raw) = Inl e \<Longrightarrow>
   parse_line rt raw = Inl e"
  by (simp add: parse_line_def)

lemma parse_line_json_key:
  assumes "json_loads rt (rstrip_crlf raw) = Inr (JObject pairs)"
    and "dict_of pairs (ascii ''action'') = Some v"
    and "py_bool rt v"
    and "py_str rt v = Inr t"
  shows "parse_line rt raw = Inr (Some (strip t))"
proof -
  have "rstrip_crlf raw \<noteq> []"
    using assms(1) json_loads_Nil [of rt] by auto
  moreover have "dict_get (dict_of pairs) (ascii ''action'') = v"
    using assms(2) by (simp add: dict_get_def)
  ultimately show ?thesis
    using assms(1,3,4) by (simp add: parse_line_def json_action_def try_json_def)
qed

text \<open>
  C3, as stated, fails for a value that Python takes for false in a condition: the
  number 0 is a value of a primitive type and its text \<open>0\<close> is not empty, but
  \<^verbatim>\<open>if action:\<close> passes it over, and the line has no pipe-separated fields to fall
  back on.
\<close>

theorem parse_line_zero_action_counterexample:
  "json_loads rt0 (ascii ''{\"action\": 0}'') = Inr (JObject [(ascii ''action'', JInt 0)]) \<and>
   py_str rt0 (JInt 0) = Inr (ascii ''0'') \<and>
   parse_line rt0 (ascii ''{\"action\": 0}'') = Inr None"
  by (simp add: eval_defs digits_of.simps)

text \<open>
  C3, amended. When \<^verbatim>\<open>json.loads\<close> decodes the line, without its line terminator, to
  an object whose \<^verbatim>\<open>action\<close> has a value that Python takes for true in a condition
  (not \<^verbatim>\<open>null\<close>, not \<^verbatim>\<open>false\<close>, not a zero number, not empty), and \<open>t\<close> is the text
  \<^verbatim>\<open>str\<close> gives for that value, \<open>parse_line\<close> returns \<open>t\<close>, trimmed. A line that
  \<^verbatim>\<open>json.loads\<close> raises for is not decoded, and the theorem says nothing of it.
\<close>

theorem parse_line_json:
  assumes "json_loads rt (rstrip_crlf raw) = Inr (JObject pairs)"
    and "dict_of pairs (ascii ''action'') = Some v"
    and "py_bool rt v"
    and "py_str rt v = Inr t"
  shows "parse_line rt raw = Inr (Some (strip t))"
  using assms by (rule parse_line_json_key)

theorem parse_line_json_witness:
  "json_loads rt0 (rstrip_crlf (ascii ''{\"action\": \" LOGIN \", \"user\": 7}'' @ [LF]))
     = Inr (JObject [(ascii ''action'', JString (ascii '' LOGIN '')), (ascii ''user'', JInt 7)]) \<and>
   dict_of [(ascii ''action'', JString (ascii '' LOGIN '')), (ascii ''user'', JInt 7)] (ascii ''action'')
     = Some (JString (ascii '' LOGIN '')) \<and>
   py_bool rt0 (JString (ascii '' LOGIN '')) \<and>
   py_str rt0 (JString (ascii '' LOGIN '')) = Inr (ascii '' LOGIN '') \<and>
   parse_line rt0 (ascii ''{\"action\": \" LOGIN \", \"user\": 7}'' @ [LF]) = Inr (Some (ascii ''LOGIN'')) \<and>
   json_loads rt0 (rstrip_crlf (ascii ''{\"action\": 42}'')) = Inr (JObject [(ascii ''action'', JInt 42)]) \<and>
   py_str rt0 (JInt 42) = Inr (ascii ''42'') \<and>
   parse_line rt0 (ascii ''{\"action\": 42}'') = Inr (Some (ascii ''42''))"
proof -
  let ?l1 = "(ascii ''{\"action\": \" LOGIN \", \"user\": 7}'') @ [LF]"
  let ?p1 = "[(ascii ''action'', JString (ascii '' LOGIN '')), (ascii ''user'', JInt 7)]"
  let ?l2 = "(ascii ''{\"action\": 42}'')"
  let ?p2 = "[(ascii ''action'', JInt 42)]"
  have d1: "json_loads rt0 (rstrip_crlf ?l1) = Inr (JObject ?p1)"
    by (simp add: eval_defs)
  have g1: "dict_of ?p1 (ascii ''action'') = Some (JString (ascii '' LOGIN ''))"
    by (simp add: eval_defs)
  have b1: "py_bool rt0 (JString (ascii '' LOGIN ''))"
    by (simp add: eval_defs)
  have t1: "py_str rt0 (JString (ascii '' LOGIN '')) = Inr (ascii '' LOGIN '')"
    by (simp add: py_str_def)
  have s1: "strip (ascii '' LOGIN '') = ascii ''LOGIN''"
    by (simp add: eval_defs)
  have d2: "json_loads rt0 (rstrip_crlf ?l2) = Inr (JObject ?p2)"
    by (simp add: eval_defs)
  have g2: "dict_of ?p2 (ascii ''action'') = Some (JInt 42)"
    by (simp add: eval_defs)
  have b2: "py_bool rt0 (JInt 42)"
    by (simp add: eval_defs)
  have t2: "py_str rt0 (JInt 42) = Inr (ascii ''42'')"
    by (simp add: eval_defs digits_of.simps)
  have s2: "strip (ascii ''42'') = ascii ''42''"
    by (simp add: eval_defs)
  from parse_line_json [OF d1 g1 b1 t1] parse_line_json [OF d2 g2 b2 t2] d1 g1 b1 t1 d2 t2
  show ?thesis
    by (simp only: s1 s2 simp_thms)
qed

text \<open>
  C4, as stated, fails for a line that is a JSON object and has pipes inside: the
  JSON format is tried first, and its key is returned.
\<close>

theorem parse_line_json_first_counterexample:
  "length (split_on PIPE (ascii ''{\"action\":\"X\",\"m\":\"a|b|c|d\"}'')) = 4 \<and>
   strip (split_on PIPE (ascii ''{\"action\":\"X\",\"m\":\"a|b|c|d\"}'') ! 3) = ascii ''d\"}'' \<and>
   parse_line rt0 (ascii ''{\"action\":\"X\",\"m\":\"a|b|c|d\"}'') = Inr (Some (ascii ''X''))"
  by (simp add: eval_defs)

text \<open>
  C4, amended. When the \<^verbatim>\<open>try\<close> statement ends without a key (the line is not JSON,
  or not an object with an \<^verbatim>\<open>action\<close> that counts as true) and no exception leaves it,
  and the line splits on the pipe into at least four fields of which the fourth is not
  blank, \<open>parse_line\<close> returns the fourth field, trimmed. Where an exception leaves the
  \<^verbatim>\<open>try\<close> statement, it leaves \<open>parse_line\<close> (lemmas \<open>parse_line_raises\<close>,
  \<open>parse_line_deep\<close>).
\<close>

theorem parse_line_pipe:
  assumes "json_action rt (rstrip_crlf raw) = Inr None"
    and "ACTION_INDEX < length (split_on PIPE (rstrip_crlf raw))"
    and "strip (split_on PIPE (rstrip_crlf raw) ! ACTION_INDEX) \<noteq> []"
  shows "parse_line rt raw = Inr (Some (strip (split_on PIPE (rstrip_crlf raw) ! ACTION_INDEX)))"
proof -
  have "rstrip_crlf raw \<noteq> []"
    using assms(2) by auto
  then show ?thesis
    using assms by (simp add: parse_line_def pipe_action_def strip_idem)
qed

theorem parse_line_pipe_witness:
  "json_action rt0 (rstrip_crlf (ascii ''2024-01-01T00:00:00Z|INFO|u1|VIEW|Page viewed|120|1.2.3.4'')) = Inr None \<and>
   length (split_on PIPE (rstrip_crlf (ascii ''2024-01-01T00:00:00Z|INFO|u1|VIEW|Page viewed|120|1.2.3.4''))) = 7 \<and>
   strip (split_on PIPE (rstrip_crlf (ascii ''2024-01-01T00:00:00Z|INFO|u1|VIEW|Page viewed|120|1.2.3.4'')) ! ACTION_INDEX) = ascii ''VIEW'' \<and>
   parse_line rt0 (ascii ''2024-01-01T00:00:00Z|INFO|u1|VIEW|Page viewed|120|1.2.3.4'') = Inr (Some (ascii ''VIEW''))"
proof -
  let ?l = "(ascii ''2024-01-01T00:00:00Z|INFO|u1|VIEW|Page viewed|120|1.2.3.4'')"
  have j: "json_action rt0 (rstrip_crlf ?l) = Inr None"
    by (simp add: eval_defs)
  have n: "length (split_on PIPE (rstrip_crlf ?l)) = 7"
    by (simp add: eval_defs)
  have f: "strip (split_on PIPE (rstrip_crlf ?l) ! ACTION_INDEX) = ascii ''VIEW''"
    by (simp add: eval_defs)
  have "ACTION_INDEX < length (split_on PIPE (rstrip_crlf ?l))"
    by (simp add: n)
  moreover have "strip (split_on PIPE (rstrip_crlf ?l) ! ACTION_INDEX) \<noteq> []"
    unfolding f by (simp add: ascii_def)
  ultimately have "parse_line rt0 ?l
      = Inr (Some (strip (split_on PIPE (rstrip_crlf ?l) ! ACTION_INDEX)))"
    by (rule parse_line_pipe [OF j])
  with j n f show ?thesis
    by (simp only: simp_thms)
qed

text \<open>
  C5, as stated, fails for a line that is a JSON object without pipes: it has fewer
  than four pipe-separated fields, and \<open>parse_line\<close> returns its \<^verbatim>\<open>action\<close>.
\<close>

theorem parse_line_few_fields_counterexample:
  "length (split_on PIPE (ascii ''{\"action\":\"LOGIN\"}'')) = 1 \<and>
   parse_line rt0 (ascii ''{\"action\":\"LOGIN\"}'') = Inr (Some (ascii ''LOGIN''))"
  by (simp add: eval_defs)

text \<open>
  C5, amended. \<open>parse_line\<close> produces no key for an empty line, and for a line for which
  the \<^verbatim>\<open>try\<close> statement gives no key and that either has fewer than four
  pipe-separated fields or has a blank fourth field. It returns \<^verbatim>\<open>None\<close>, unless an
  exception leaves the \<^verbatim>\<open>try\<close> statement, and then it raises.
\<close>

theorem parse_line_fails:
  assumes "rstrip_crlf raw = [] \<or>
           \<not> is_key (json_action rt (rstrip_crlf raw)) \<and>
           (length (split_on PIPE (rstrip_crlf raw)) < 4 \<or>
            strip (split_on PIPE (rstrip_crlf raw) ! ACTION_INDEX) = [])"
  shows "\<not> is_key (parse_line rt raw) \<and>
         (rstrip_crlf raw = [] \<or> json_action rt (rstrip_crlf raw) = Inr None
            \<longrightarrow> parse_line rt raw = Inr None)"
  using assms
  by (auto simp: parse_line_def pipe_action_def Let_def strip_idem strip_Nil is_key_def
      split: sum.splits option.splits)

theorem parse_line_fails_witness:
  "rstrip_crlf [CR, LF] = [] \<and> parse_line rt0 [CR, LF] = Inr None \<and>
   json_action rt0 (rstrip_crlf (ascii ''a|b|c'')) = Inr None \<and>
   length (split_on PIPE (rstrip_crlf (ascii ''a|b|c''))) = 3 \<and>
   parse_line rt0 (ascii ''a|b|c'') = Inr None \<and>
   json_action rt0 (rstrip_crlf (ascii ''a|b|c| |e'')) = Inr None \<and>
   strip (split_on PIPE (rstrip_crlf (ascii ''a|b|c| |e'')) ! ACTION_INDEX) = [] \<and>
   parse_line rt0 (ascii ''a|b|c| |e'') = Inr None"
proof -
  have e: "rstrip_crlf [CR, LF] = []"
    by (simp add: eval_defs)
  have j: "json_action rt0 (rstrip_crlf (ascii ''a|b|c'')) = Inr None"
    "json_action rt0 (rstrip_crlf (ascii ''a|b|c| |e'')) = Inr None"
    by (simp_all add: eval_defs)
  have n: "length (split_on PIPE (rstrip_crlf (ascii ''a|b|c''))) = 3"
    by (simp add: eval_defs)
  have b: "strip (split_on PIPE (rstrip_crlf (ascii ''a|b|c| |e'')) ! ACTION_INDEX) = []"
    by (simp add: eval_defs)
  from parse_line_fails [of "[CR, LF]" rt0] parse_line_fails [of "ascii ''a|b|c''" rt0]
    parse_line_fails [of "ascii ''a|b|c| |e''" rt0] e j n b
  show ?thesis
    by (simp add: is_key_def)
qed

text \<open>
  C6. The key \<open>parse_line\<close> returns can be empty: for a JSON object whose \<^verbatim>\<open>action\<close> is
  a blank string, the test \<^verbatim>\<open>if action:\<close> comes before the trimming, and the mapper
  writes a pair with an empty key. The pipe-separated branch tests after the trimming.
\<close>

theorem parse_line_blank_action:
  "parse_line rt0 (ascii ''{\"action\": \" \"}'') = Inr (Some []) \<and>
   mapper_step rt0 minit (ascii ''{\"action\": \" \"}'') = \<lparr>mout = [TAB # ascii ''1'' @ [LF]], merr = []\<rparr> \<and>
   parse_line rt0 (ascii ''a|b|c| |e'') = Inr None"
  by (simp add: eval_defs)

section \<open>Empty lines\<close>

text \<open>
  C7, as stated, fails for the mapper: an empty line is one more line without a key,
  and the mapper reports it.
\<close>

theorem mapper_empty_line_counterexample:
  "rstrip_crlf [LF] = [] \<and>
   mapper_step rt0 minit [LF] = \<lparr>mout = [], merr = [MapperSkip [LF]]\<rparr>"
  by (simp add: eval_defs)

text \<open>
  C7, amended. For an empty line the mapper writes nothing to its output and one
  diagnostic, and the reducer changes neither its totals nor its diagnostics.
\<close>

theorem empty_line_skipped:
  assumes "rstrip_crlf raw = []"
  shows "mapper_step rt mst raw = mst\<lparr>merr := merr mst @ [MapperSkip (take 80 raw)]\<rparr> \<and>
         reducer_step rt' rst raw = rst"
  using assms by (simp add: mapper_step_def parse_line_def reducer_step_def)

theorem empty_line_skipped_witness:
  "rstrip_crlf [LF] = [] \<and>
   mapper_step rt0 minit [LF] = minit\<lparr>merr := merr minit @ [MapperSkip [LF]]\<rparr> \<and>
   reducer_step rt0 rinit [LF] = rinit"
proof -
  have e: "rstrip_crlf [LF] = []"
    by (simp add: eval_defs)
  from empty_line_skipped [OF e, where rt = rt0 and mst = minit and rt' = rt0 and rst = rinit] e
  show ?thesis
    by simp
qed

section \<open>Blank keys\<close>

lemma reducer_step_blank_key:
  assumes "rstrip_crlf raw = k @ TAB # v" and "TAB \<notin> set k" and "strip k = []"
  shows "reducer_step rt rst raw = rst"
proof -
  have "takeWhile (\<lambda>c. c \<noteq> TAB) (k @ TAB # v) = k"
    using assms(2) by (induction k) auto
  then show ?thesis
    using assms by (simp add: reducer_step_def split_first_sep)
qed

lemma reducer_step_blank_pair: "reducer_step rt rst (TAB # ascii ''1'' @ [LF]) = rst"
  by (rule reducer_step_blank_key [of _ "[]" "ascii ''1''"])
     (simp_all add: rstrip_crlf_def ascii_def strip_def)

lemma accepted_key_not_blank:
  "accepted_pair rt raw = Some (k, c) \<Longrightarrow> k \<noteq> []"
  by (auto simp: accepted_pair_def Let_def split: if_splits list.splits)

lemma blank_action_key:
  assumes "json_loads rt (rstrip_crlf raw) = Inr (JObject pairs)"
    and "dict_of pairs (ascii ''action'') = Some (JString s)"
    and "s \<noteq> []" and "strip s = []"
  shows "parse_line rt raw = Inr (Some [])"
  using parse_line_json_key [OF assms(1,2), of s] assms(3,4)
  by (simp add: py_bool_def py_str_def)

text \<open>The digits of a number, up to the code point after them.\<close>

lemma digits_block:
  assumes "\<not> is_digit y"
  shows "takeWhile is_digit (replicate n 49 @ y # ys) = replicate n 49"
    and "dropWhile is_digit (replicate n 49 @ y # ys) = y # ys"
  using assms by (induction n) (auto simp: is_digit_def)

text \<open>
  A JSON object with a blank \<^verbatim>\<open>action\<close> and a second member, an integer of 4301
  digits: \<^verbatim>\<open>json.loads\<close> returns the object where the limit on digits allows the
  integer and raises \<^verbatim>\<open>ValueError\<close> where it does not.
\<close>

lemma big_member_scan:
  "0 < d \<Longrightarrow>
   scan_once (Suc (Suc (Suc (Suc m)))) rt d long_int_line
     = (if too_many_digits rt 4301 then Raised ValueError
        else Done (JObject [(ascii ''action'', JString (ascii '' '')),
                     (ascii ''n'', JInt (int (digits_val (49 # replicate 4300 49))))]) [])"
  by (simp add: long_int_line_def ascii_def is_space_def is_digit_def json_ws_def skip_ws_def
      hex_val_def decode_uXXXX_def backslash_def match_exp_def match_frac_def
      match_number_def number_value_def starts_with_def scan_literal_def Let_def
      digits_block)

lemma big_member_fuel:
  "Suc (length long_int_line + length long_int_line)
     = Suc (Suc (Suc (Suc (length long_int_line + length long_int_line - 3))))"
  by (simp add: long_int_line_def ascii_def)

lemma big_member_loads:
  "0 < max_nesting rt \<Longrightarrow>
   json_loads rt long_int_line
     = (if too_many_digits rt 4301 then Inl ValueError
        else Inr (JObject [(ascii ''action'', JString (ascii '' '')),
                     (ascii ''n'', JInt (int (digits_val (49 # replicate 4300 49))))]))"
proof -
  assume d: "0 < max_nesting rt"
  have s: "skip_ws long_int_line = long_int_line" "take 1 long_int_line \<noteq> [65279]"
    by (simp_all add: long_int_line_def skip_ws_def json_ws_def ascii_def)
  show ?thesis
    unfolding json_loads_def json_scan_def s big_member_fuel big_member_scan [OF d]
    using s(2) by (simp add: skip_ws_def)
qed

text \<open>
  C10, as stated, fails for a JSON object with a blank \<^verbatim>\<open>action\<close> and a member that
  \<^verbatim>\<open>json.loads\<close> raises for: here an integer of 4301 digits, one more than the limit.
  Without the limit the line decodes to an object whose \<^verbatim>\<open>action\<close> is one space; with
  it, \<^verbatim>\<open>ValueError\<close> leaves \<open>parse_line\<close> and the mapper writes no pair.
\<close>

theorem blank_action_raises_counterexample:
  "json_loads (rt0\<lparr>max_str_digits := 0\<rparr>) long_int_line
     = Inr (JObject [(ascii ''action'', JString (ascii '' '')),
                     (ascii ''n'', JInt (int (digits_val (49 # replicate 4300 49))))]) \<and>
   dict_of [(ascii ''action'', JString (ascii '' '')),
            (ascii ''n'', JInt (int (digits_val (49 # replicate 4300 49))))] (ascii ''action'')
     = Some (JString (ascii '' '')) \<and>
   ascii '' '' \<noteq> [] \<and> strip (ascii '' '') = [] \<and>
   parse_line rt0 long_int_line = Inl ValueError \<and>
   mapper_step rt0 minit long_int_line
     = \<lparr>mout = [], merr = [MapperError ValueError]\<rparr>"
proof -
  have r: "rstrip_crlf long_int_line = long_int_line" "long_int_line \<noteq> []"
    by (simp_all add: long_int_line_def rstrip_crlf_def ascii_def)
  have jl: "json_loads rt0 long_int_line = Inl ValueError"
    by (simp add: big_member_loads rt0_simps too_many_digits_def)
  have p: "parse_line rt0 long_int_line = Inl ValueError"
    unfolding parse_line_def r(1) Let_def json_action_def try_json_def jl using r(2) by simp
  have l: "json_loads (rt0\<lparr>max_str_digits := 0\<rparr>) long_int_line
     = Inr (JObject [(ascii ''action'', JString (ascii '' '')),
                     (ascii ''n'', JInt (int (digits_val (49 # replicate 4300 49))))])"
    by (simp add: big_member_loads rt0_simps too_many_digits_def)
  have g: "dict_of [(ascii ''action'', JString (ascii '' '')),
            (ascii ''n'', JInt (int (digits_val (49 # replicate 4300 49))))] (ascii ''action'')
     = Some (JString (ascii '' ''))"
    by (simp add: dict_of_def ascii_def)
  have s: "ascii '' '' \<noteq> []" "strip (ascii '' '') = []"
    by (simp_all add: ascii_def strip_def is_space_def)
  have m: "mapper_step rt0 minit long_int_line
      = \<lparr>mout = [], merr = [MapperError ValueError]\<rparr>"
    by (simp add: mapper_step_def p minit_def)
  from l g s p m show ?thesis
    by (simp only: simp_thms)
qed

text \<open>
  C10, amended. When \<^verbatim>\<open>json.loads\<close> decodes the line to an object whose \<^verbatim>\<open>action\<close>
  is a string that is not empty but blank, \<open>parse_line\<close> returns the empty key and the
  mapper writes the pair of the empty key and 1, a tab between them. The reducer passes
  over every line whose key part is blank, and over this pair, without a diagnostic; the
  pair changes nothing in the output, and no entry of any output has the empty key.
\<close>

theorem blank_action_dropped:
  assumes "json_loads rt (rstrip_crlf raw) = Inr (JObject pairs)"
    and "dict_of pairs (ascii ''action'') = Some (JString s)"
    and "s \<noteq> []" and "strip s = []"
  shows "parse_line rt raw = Inr (Some []) \<and>
         mapper_step rt mst raw = mst\<lparr>mout := mout mst @ [TAB # ascii ''1'' @ [LF]]\<rparr> \<and>
         (rstrip_crlf raw' = k @ TAB # v \<and> TAB \<notin> set k \<and> strip k = []
            \<longrightarrow> reducer_step rt' rst raw' = rst) \<and>
         reducer_step rt' rst (TAB # ascii ''1'' @ [LF]) = rst \<and>
         aggregate rt' (xs @ (TAB # ascii ''1'' @ [LF]) # ys) = aggregate rt' (xs @ ys) \<and>
         [] \<notin> fst ` set (aggregate rt' zs)"
proof -
  have key: "parse_line rt raw = Inr (Some [])"
    using assms by (rule blank_action_key)
  have "[] \<notin> fst ` set (aggregate rt' zs)"
    using accepted_key_not_blank by (force simp: aggregate_entry map_filter_def)
  with key show ?thesis
    by (simp add: mapper_step_def emit_def reducer_step_blank_key reducer_step_blank_pair
        aggregate_def reducer_loop_def)
qed

theorem blank_action_dropped_witness:
  "json_loads rt0 (rstrip_crlf (ascii ''{\"action\": \" \"}'')) = Inr (JObject [(ascii ''action'', JString (ascii '' ''))]) \<and>
   dict_of [(ascii ''action'', JString (ascii '' ''))] (ascii ''action'') = Some (JString (ascii '' '')) \<and>
   ascii '' '' \<noteq> [] \<and> strip (ascii '' '') = [] \<and>
   parse_line rt0 (ascii ''{\"action\": \" \"}'') = Inr (Some []) \<and>
   mapper_step rt0 minit (ascii ''{\"action\": \" \"}'') = minit\<lparr>mout := mout minit @ [TAB # ascii ''1'' @ [LF]]\<rparr> \<and>
   rstrip_crlf (ascii '' '' @ TAB # ascii ''5'' @ [LF]) = ascii '' '' @ TAB # ascii ''5'' \<and>
   TAB \<notin> set (ascii '' '') \<and>
   reducer_step rt0 rinit (ascii '' '' @ TAB # ascii ''5'' @ [LF]) = rinit \<and>
   reducer_step rt0 rinit (TAB # ascii ''1'' @ [LF]) = rinit \<and>
   aggregate rt0 ([ascii ''A'' @ TAB # ascii ''1''] @ (TAB # ascii ''1'' @ [LF]) # [])
     = aggregate rt0 ([ascii ''A'' @ TAB # ascii ''1''] @ [])"
proof -
  let ?p = "[(ascii ''action'', JString (ascii '' ''))]"
  have d: "json_loads rt0 (rstrip_crlf (ascii ''{\"action\": \" \"}'')) = Inr (JObject ?p)"
    by (simp add: eval_defs)
  have g: "dict_of ?p (ascii ''action'') = Some (JString (ascii '' ''))"
    by (simp add: eval_defs)
  have s: "ascii '' '' \<noteq> []" "strip (ascii '' '') = []"
    by (simp_all add: eval_defs)
  have h: "rstrip_crlf (ascii '' '' @ TAB # ascii ''5'' @ [LF]) = ascii '' '' @ TAB # ascii ''5''"
    "TAB \<notin> set (ascii '' '')"
    by (simp_all add: eval_defs)
  from blank_action_dropped [OF d g s, where mst = minit and rt' = rt0 and rst = rinit
      and raw' = "ascii '' '' @ TAB # ascii ''5'' @ [LF]" and k = "ascii '' ''"
      and v = "ascii ''5''"
      and xs = "[ascii ''A'' @ TAB # ascii ''1'']" and ys = "[]" and zs = "[]"] d g s h
  show ?thesis
    by (simp only: simp_thms)
qed

end
